theory Spec2Isabelle
  imports Main "HOL-Library.Word"
begin

unbundle bit_operations_syntax

section \<open>Protocol constants and machine types\<close>

text \<open>
  The matrix server and its client exchange 32-bit unsigned tags in network byte order
  and raw IEEE-754 single-precision values in host byte order. A \<open>uint32_t\<close> and an
  \<open>int\<close> are 32-bit words; a \<open>float\<close> is kept as its 32-bit pattern, since the
  program only copies floats and compares them.
\<close>

type_synonym byte = "8 word"
type_synonym u32 = "32 word"
type_synonym float = "32 word"

definition CMD_CONFIG_DATA :: u32 where "CMD_CONFIG_DATA = 1"
definition CMD_START_COMP :: u32 where "CMD_START_COMP = 2"
definition CMD_GET_STATUS :: u32 where "CMD_GET_STATUS = 3"
definition RESP_ACK :: u32 where "RESP_ACK = 10"
definition RESP_STATUS_PENDING :: u32 where "RESP_STATUS_PENDING = 11"
definition RESP_RESULT :: u32 where "RESP_RESULT = 12"
definition RESP_ERROR :: u32 where "RESP_ERROR = 13"

definition DEFAULT_MATRIX_SIZE :: u32 where "DEFAULT_MATRIX_SIZE = 5"
definition DEFAULT_NUM_THREADS :: u32 where "DEFAULT_NUM_THREADS = 2"

section \<open>Client command line (client/main.cpp, main)\<close>

text \<open>
  \<open>std::stoul\<close> is library code: its outcome on one argument string is an input of the
  model, either an exception (swallowed by \<open>catch (...)\<close>) or the value stored into the
  \<open>uint32_t\<close> variable. The list holds the outcomes for \<open>argv[1]\<close>, \<open>argv[2]\<close>, ...
\<close>

datatype stoul_result = StoulThrows | StoulReturns u32

definition parse_or_keep :: "u32 \<Rightarrow> stoul_result \<Rightarrow> u32" where
  "parse_or_keep dflt r = (case r of StoulThrows \<Rightarrow> dflt | StoulReturns v \<Rightarrow> v)"

definition client_args :: "stoul_result list \<Rightarrow> u32 \<times> u32" where
  "client_args args =
     (let matrixSize = DEFAULT_MATRIX_SIZE;
          numThreads = DEFAULT_NUM_THREADS;
          matrixSize = (if length args \<ge> 1 then parse_or_keep matrixSize (args ! 0) else matrixSize);
          numThreads = (if length args \<ge> 2 then parse_or_keep numThreads (args ! 1) else numThreads);
          matrixSize = (if matrixSize = 0 \<or> matrixSize > 5000 then DEFAULT_MATRIX_SIZE else matrixSize);
          numThreads = (if numThreads = 0 \<or> numThreads > 128 then DEFAULT_NUM_THREADS else numThreads)
      in (matrixSize, numThreads))"

text \<open>The reading of the specification: each argument is clamped into its range.\<close>

definition clamp_spec :: "u32 \<Rightarrow> u32 \<Rightarrow> u32" where
  "clamp_spec hi v = (if v > hi then hi else v)"

section \<open>Byte order\<close>

text \<open>
  Both programs are Winsock programs, so the host is little-endian: the first byte of a
  \<open>uint32_t\<close> in memory is its least significant one. \<open>htonl\<close> and \<open>ntohl\<close> reverse
  the four bytes.
\<close>

definition le_bytes :: "u32 \<Rightarrow> byte list" where
  "le_bytes v = [ucast v, ucast (drop_bit 8 v), ucast (drop_bit 16 v), ucast (drop_bit 24 v)]"

fun le_word :: "byte list \<Rightarrow> u32" where
  "le_word [] = 0"
| "le_word (b # bs) = ucast b OR push_bit 8 (le_word bs)"

definition htonl :: "u32 \<Rightarrow> u32" where
  "htonl v = le_word (rev (le_bytes v))"

definition ntohl :: "u32 \<Rightarrow> u32" where
  "ntohl v = le_word (rev (le_bytes v))"

text \<open>The big-endian value of a byte sequence, as the wire format defines it.\<close>

definition be_word :: "byte list \<Rightarrow> u32" where
  "be_word bs = le_word (rev bs)"

definition be_bytes :: "u32 \<Rightarrow> byte list" where
  "be_bytes v = rev (le_bytes v)"

section \<open>The socket\<close>

text \<open>
  A connected socket, seen from one endpoint: \<open>rx\<close> holds the bytes the peer will still
  deliver, and \<open>rx_end\<close> says what \<open>recv\<close> reports once they run out (an orderly close,
  or a failure with its WSA error code). \<open>tx\<close> collects the bytes sent; the connection
  accepts \<open>tx_budget\<close> more bytes and then fails every \<open>send\<close>. \<open>cerr\<close> collects the
  diagnostics written to \<open>std::cerr\<close> about this socket.
\<close>

datatype stream_end = OrderlyClose | SocketFailure int

datatype diag =
    SendU32Failed int | SendU32Incomplete int
  | RecvU32Disconnected | RecvU32Failed int | RecvU32Incomplete int
  | ConnectionReset
  | SendFloatsFailed int
  | RecvFloatsFailed int | RecvFloatsDisconnected | ConnectionResetDuringFloats
  | InvalidMatrixSize u32 | StartBeforeConfig | StartWhileProcessing
  | UnknownCommand u32 | ComputationException

record Socket =
  rx :: "byte list"
  rx_end :: stream_end
  tx :: "byte list"
  tx_budget :: nat
  tx_error :: int
  cerr :: "diag list"

definition SOCKET_ERROR :: int where "SOCKET_ERROR = -1"
definition WSAECONNRESET :: int where "WSAECONNRESET = 10054"

definition log_line :: "diag \<Rightarrow> Socket \<Rightarrow> Socket" where
  "log_line d s = s\<lparr>cerr := cerr s @ [d]\<rparr>"

text \<open>
  \<open>recv\<close> with \<open>MSG_WAITALL\<close>: the full request when the peer delivers it, a short count
  (possibly 0) when the peer closes first, \<open>SOCKET_ERROR\<close> on failure. The result is the
  returned count, the bytes stored into the buffer, the WSA error code and the socket.
\<close>

definition recv_waitall :: "Socket \<Rightarrow> nat \<Rightarrow> int \<times> byte list \<times> int \<times> Socket" where
  "recv_waitall s n =
     (if n \<le> length (rx s) then (int n, take n (rx s), 0, s\<lparr>rx := drop n (rx s)\<rparr>)
      else case rx_end s of
             OrderlyClose \<Rightarrow> (int (length (rx s)), rx s, 0, s\<lparr>rx := []\<rparr>)
           | SocketFailure code \<Rightarrow> (SOCKET_ERROR, [], code, s))"

text \<open>
  \<open>recv\<close> without flags: whatever is available, at most the request; 0 after an orderly
  close, \<open>SOCKET_ERROR\<close> on failure.
\<close>

definition recv_some :: "Socket \<Rightarrow> nat \<Rightarrow> int \<times> byte list \<times> int \<times> Socket" where
  "recv_some s n =
     (if rx s \<noteq> [] then
        (int (min n (length (rx s))), take n (rx s), 0, s\<lparr>rx := drop n (rx s)\<rparr>)
      else case rx_end s of
             OrderlyClose \<Rightarrow> (0, [], 0, s)
           | SocketFailure code \<Rightarrow> (SOCKET_ERROR, [], code, s))"

text \<open>
  \<open>send\<close>: the bytes the connection still accepts, \<open>SOCKET_ERROR\<close> once it accepts none.
  The result is the returned count, the WSA error code and the socket.
\<close>

definition send_raw :: "Socket \<Rightarrow> byte list \<Rightarrow> int \<times> int \<times> Socket" where
  "send_raw s bs =
     (if tx_budget s = 0 \<and> bs \<noteq> [] then (SOCKET_ERROR, tx_error s, s)
      else let k = min (length bs) (tx_budget s)
           in (int k, 0, s\<lparr>tx := tx s @ take k bs, tx_budget := tx_budget s - k\<rparr>))"

section \<open>Wire codec of the server (server.cpp)\<close>

definition send_uint32 :: "Socket \<Rightarrow> u32 \<Rightarrow> bool \<times> Socket" where
  "send_uint32 sock v =
     (let netValue = htonl v in
      case send_raw sock (le_bytes netValue) of (bytesSent, error_code, s) \<Rightarrow>
        if bytesSent = SOCKET_ERROR then (False, log_line (SendU32Failed error_code) s)
        else if bytesSent \<noteq> 4 then (False, log_line (SendU32Incomplete bytesSent) s)
        else (True, s))"

text \<open>
  \<open>recv_uint32\<close> writes through a reference: the second argument is the old content of
  the variable, the second result its new content. A short read overwrites only the
  leading bytes of the variable.
\<close>

definition recv_uint32 :: "Socket \<Rightarrow> u32 \<Rightarrow> bool \<times> u32 \<times> Socket" where
  "recv_uint32 sock v =
     (case recv_waitall sock 4 of (bytesReceived, bs, error_code, s) \<Rightarrow>
        let stored = le_word (bs @ drop (length bs) (le_bytes v)) in
        if bytesReceived = 4 then (True, ntohl stored, s)
        else if bytesReceived = 0 then (False, stored, log_line RecvU32Disconnected s)
        else if bytesReceived = SOCKET_ERROR then
          (False, stored,
           (if error_code = WSAECONNRESET then log_line ConnectionReset else id)
             (log_line (RecvU32Failed error_code) s))
        else (False, stored, log_line (RecvU32Incomplete bytesReceived) s))"

text \<open>Float buffers in memory: four bytes per element, host order.\<close>

definition bytes_of_floats :: "float list \<Rightarrow> byte list" where
  "bytes_of_floats fs = concat (map le_bytes fs)"

fun floats_of_bytes :: "byte list \<Rightarrow> float list" where
  "floats_of_bytes (a # b # c # d # bs) = le_word [a, b, c, d] # floats_of_bytes bs"
| "floats_of_bytes _ = []"

text \<open>\<open>std::vector::resize\<close>: truncate, or extend with zeros.\<close>

definition resize :: "float list \<Rightarrow> nat \<Rightarrow> float list" where
  "resize fs n = take n fs @ replicate (n - length fs) 0"

function send_floats_loop :: "Socket \<Rightarrow> byte list \<Rightarrow> bool \<times> Socket" where
  "send_floats_loop sock rest =
     (if rest \<noteq> [] then
        (case send_raw sock rest of (result, error_code, s) \<Rightarrow>
           if result = SOCKET_ERROR then (False, log_line (SendFloatsFailed error_code) s)
           else send_floats_loop s (drop (nat result) rest))
      else (True, sock))"
  by pat_completeness auto
termination
  by (relation "measure (\<lambda>(sock, rest). length rest)")
     (auto simp: send_raw_def Let_def SOCKET_ERROR_def split: if_splits)

declare send_floats_loop.simps [simp del]

definition send_floats :: "Socket \<Rightarrow> float list \<Rightarrow> bool \<times> Socket" where
  "send_floats sock fs =
     (if 4 * length fs = 0 then (True, sock)
      else send_floats_loop sock (bytes_of_floats fs))"

function recv_floats_loop :: "Socket \<Rightarrow> byte list \<Rightarrow> nat \<Rightarrow> bool \<times> byte list \<times> Socket" where
  "recv_floats_loop sock buffer bytesReceived =
     (if bytesReceived < length buffer then
        (case recv_some sock (length buffer - bytesReceived) of (result, bs, error_code, s) \<Rightarrow>
           if result = SOCKET_ERROR then
             (False, buffer,
              (if error_code = WSAECONNRESET then log_line ConnectionResetDuringFloats else id)
                (log_line (RecvFloatsFailed error_code) s))
           else if result = 0 then (False, buffer, log_line RecvFloatsDisconnected s)
           else recv_floats_loop s
                  (take bytesReceived buffer @ take (nat result) bs
                     @ drop (bytesReceived + nat result) buffer)
                  (bytesReceived + nat result))
      else (True, buffer, sock))"
  by pat_completeness auto
termination
  by (relation "measure (\<lambda>(sock, buffer, bytesReceived). length buffer - bytesReceived)")
     (auto simp: recv_some_def SOCKET_ERROR_def min_def neq_Nil_conv
           split: if_splits stream_end.splits)

declare recv_floats_loop.simps [simp del]

definition recv_floats :: "Socket \<Rightarrow> float list \<Rightarrow> nat \<Rightarrow> bool \<times> float list \<times> Socket" where
  "recv_floats sock fs count =
     (if count = 0 then (True, [], sock)
      else case recv_floats_loop sock (bytes_of_floats (resize fs count)) 0 of
             (ok, buffer, s) \<Rightarrow> (ok, floats_of_bytes buffer, s))"

section \<open>Wire codec of the client (client/main.cpp)\<close>

text \<open>
  The client's reader throws \<open>std::runtime_error\<close> on every failure; only the message
  text differs.
\<close>

datatype client_exception = RuntimeError diag

definition recv_uint32_or_throw :: "Socket \<Rightarrow> (client_exception + u32) \<times> Socket" where
  "recv_uint32_or_throw sock =
     (case recv_waitall sock 4 of (bytesReceived, bs, error_code, s) \<Rightarrow>
        if bytesReceived = 4 then (Inr (ntohl (le_word bs)), s)
        else if bytesReceived = 0 then (Inl (RuntimeError RecvU32Disconnected), s)
        else if bytesReceived = SOCKET_ERROR then (Inl (RuntimeError (RecvU32Failed error_code)), s)
        else (Inl (RuntimeError (RecvU32Incomplete bytesReceived)), s))"

text \<open>The error kinds the specification names for \<open>read_u32\<close>.\<close>

datatype read_error = PeerClosed | TruncatedFrame | TransportError

section \<open>Comparison of floats\<close>

text \<open>
  IEEE-754 binary32: bit 31 is the sign, the low 31 bits are exponent and fraction. A
  pattern whose low 31 bits exceed \<open>0x7F800000\<close> is a NaN. On the other patterns the
  numeric order is the order of the sign-magnitude integers (so \<open>-0\<close> and \<open>+0\<close> compare
  equal), and every comparison with a NaN is false.
\<close>

definition magnitude :: "float \<Rightarrow> u32" where
  "magnitude x = x AND 0x7FFFFFFF"

definition sign_bit :: "float \<Rightarrow> bool" where
  "sign_bit x = bit x 31"

definition is_nan :: "float \<Rightarrow> bool" where
  "is_nan x = (magnitude x > 0x7F800000)"

definition float_key :: "float \<Rightarrow> int" where
  "float_key x = (if sign_bit x then - uint (magnitude x) else uint (magnitude x))"

definition float_gt :: "float \<Rightarrow> float \<Rightarrow> bool" where
  "float_gt a b = (\<not> is_nan a \<and> \<not> is_nan b \<and> float_key a > float_key b)"

definition neg_infinity :: float where
  "neg_infinity = 0xFF800000"

section \<open>Session state (server.cpp, ClientState)\<close>

text \<open>
  \<open>workerThread\<close> is the \<open>std::thread\<close> member: not joinable, joinable with
  \<open>perform_computation\<close> still to run, or joinable with it finished. \<open>trace\<close> is not a
  field of the program: it records, in program order, the socket calls and thread
  operations the session handler has executed.
\<close>

datatype thread_state = NotJoinable | Running | Finished

datatype event =
    EvRecvU32 | EvRecvFloats nat | EvSendU32 u32 | EvSendFloats nat | EvJoin | EvSpawn

record ClientState =
  socket :: Socket
  matrixSize :: u32
  numThreads :: u32
  matrixData :: "float list"
  resultData :: "float list"
  dataReceived :: bool
  processingStarted :: bool
  processingDone :: bool
  errorOccurred :: bool
  workerThread :: thread_state
  trace :: "event list"

definition initial_state :: "Socket \<Rightarrow> ClientState" where
  "initial_state sock =
     \<lparr>socket = sock, matrixSize = 0, numThreads = 1, matrixData = [], resultData = [],
      dataReceived = False, processingStarted = False, processingDone = False,
      errorOccurred = False, workerThread = NotJoinable, trace = []\<rparr>"

definition record_event :: "event \<Rightarrow> ClientState \<Rightarrow> ClientState" where
  "record_event e st = st\<lparr>trace := trace st @ [e]\<rparr>"

section \<open>Matrix processing (server.cpp, process_matrix_rows and perform_computation)\<close>

text \<open>
  \<open>size_t\<close> is a 64-bit word; the variable \<open>size\<close> of the program is \<open>sz\<close> here.
  An access to a \<open>std::vector\<close> outside its bounds is undefined behaviour: the model
  returns \<open>None\<close> there.
\<close>

type_synonym size_t = "64 word"

definition at :: "float list \<Rightarrow> size_t \<Rightarrow> float option" where
  "at matrix idx = (if unat idx < length matrix then Some (matrix ! unat idx) else None)"

definition put :: "float list \<Rightarrow> size_t \<Rightarrow> float \<Rightarrow> float list option" where
  "put matrix idx v = (if unat idx < length matrix then Some (matrix[unat idx := v]) else None)"

lemma u32_succ: "(j :: u32) < n \<Longrightarrow> unat (j + 1) = Suc (unat j)"
proof -
  assume "j < n"
  then have "unat j < unat n" by (simp add: word_less_nat_alt)
  moreover have "unat n < 2 ^ 32" using unsigned_less [of n, where ?'a = nat] by simp
  ultimately have "unat j + 1 < 2 ^ 32" by simp
  then show ?thesis by (simp add: unat_word_ariths)
qed

text \<open>The inner loop over \<open>j\<close>: the running maximum of one row.\<close>

function row_max_loop :: "float list \<Rightarrow> size_t \<Rightarrow> u32 \<Rightarrow> u32 \<Rightarrow> float \<Rightarrow> float option" where
  "row_max_loop matrix rowStartIndex sz j maxVal =
     (if j < sz then
        (case at matrix (rowStartIndex + ucast j) of
           None \<Rightarrow> None
         | Some x \<Rightarrow>
             row_max_loop matrix rowStartIndex sz (j + 1)
               (if float_gt x maxVal then x else maxVal))
      else Some maxVal)"
  by pat_completeness auto
termination
  by (relation "measure (\<lambda>(matrix, rowStartIndex, sz, j, maxVal). unat sz - unat j)")
     (auto simp: u32_succ word_less_nat_alt)

declare row_max_loop.simps [simp del]

lemma s32_succ: "(i :: u32) <s e \<Longrightarrow> sint (i + 1) = sint i + 1"
proof -
  assume "i <s e"
  then have lt: "sint i < sint e" by (simp add: word_sless_alt)
  have "sint e < 2 ^ 31" using sint_lt [of e] by simp
  moreover have "- (2 ^ 31) \<le> sint i" using sint_ge [of i] by simp
  ultimately have "- (2 ^ 31) \<le> sint i + 1" and "sint i + 1 < 2 ^ 31" using lt by simp_all
  then have "signed_take_bit 31 (sint i + 1) = sint i + 1"
    by (simp add: signed_take_bit_int_eq_self)
  then show ?thesis by (simp add: sint_word_ariths)
qed

text \<open>
  The outer loop over the rows \<open>startRow \<le> i < endRow\<close> (both \<open>int\<close>, compared signed).
  The guard \<open>i < size\<close> compares an \<open>int\<close> with a \<open>uint32_t\<close>, so unsigned.
\<close>

function process_matrix_rows :: "float list \<Rightarrow> u32 \<Rightarrow> u32 \<Rightarrow> u32 \<Rightarrow> float list option" where
  "process_matrix_rows matrix sz i endRow =
     (if i <s endRow then
        (let rowStartIndex = (scast i :: size_t) * ucast sz in
         case row_max_loop matrix rowStartIndex sz 0 neg_infinity of
           None \<Rightarrow> None
         | Some maxVal \<Rightarrow>
             (if i < sz then
                (case put matrix (rowStartIndex + scast i) maxVal of
                   None \<Rightarrow> None
                 | Some matrix' \<Rightarrow> process_matrix_rows matrix' sz (i + 1) endRow)
              else process_matrix_rows matrix sz (i + 1) endRow))
      else Some matrix)"
  by pat_completeness auto
termination
  by (relation "measure (\<lambda>(matrix, sz, i, endRow). nat (sint endRow - sint i))")
     (auto simp: s32_succ word_sless_alt)

declare process_matrix_rows.simps [simp del]

text \<open>
  The loop of \<open>perform_computation\<close> that cuts the rows into chunks: the list of
  \<open>(startRow, endRow)\<close> pairs handed to the spawned threads, in spawn order.
\<close>

function spawn_loop :: "u32 \<Rightarrow> u32 \<Rightarrow> u32 \<Rightarrow> u32 \<Rightarrow> u32 \<Rightarrow> u32 \<Rightarrow> (u32 \<times> u32) list" where
  "spawn_loop sz threads_to_use rowsPerThread extraRows i startRow =
     (if i < threads_to_use then
        (let rowsForThisThread = rowsPerThread + (if i < extraRows then 1 else 0) in
         if 0 <s rowsForThisThread \<and> startRow < sz then
           (let endRow = min (startRow + rowsForThisThread) sz in
            (startRow, endRow)
              # spawn_loop sz threads_to_use rowsPerThread extraRows (i + 1) endRow)
         else spawn_loop sz threads_to_use rowsPerThread extraRows (i + 1) startRow)
      else [])"
  by pat_completeness auto
termination
  by (relation "measure (\<lambda>(sz, threads_to_use, rowsPerThread, extraRows, i, startRow).
                   unat threads_to_use - unat i)")
     (auto simp: u32_succ word_less_nat_alt)

declare spawn_loop.simps [simp del]

definition chunks :: "u32 \<Rightarrow> u32 \<Rightarrow> (u32 \<times> u32) list" where
  "chunks sz threads =
     (let threads_to_use = max 1 threads;
          rowsPerThread = sz div threads_to_use;
          extraRows = sz mod threads_to_use
      in spawn_loop sz threads_to_use rowsPerThread extraRows 0 0)"

text \<open>
  The spawned threads work on the shared buffer. Each thread reads and writes only the
  rows of its own chunk, so the buffer after the joins does not depend on the
  interleaving (fact \<open>rows_any_order\<close> below); the model runs the threads one after
  the other in spawn order.
\<close>

fun run_tasks :: "float list \<Rightarrow> u32 \<Rightarrow> (u32 \<times> u32) list \<Rightarrow> float list option" where
  "run_tasks matrix sz [] = Some matrix"
| "run_tasks matrix sz ((startRow, endRow) # tasks) =
     (case process_matrix_rows matrix sz startRow endRow of
        None \<Rightarrow> None
      | Some matrix' \<Rightarrow> run_tasks matrix' sz tasks)"

text \<open>
  The first statement of \<open>perform_computation\<close>: the working copy of the input. When the
  sizes differ the result buffer is assigned the input, otherwise the input is copied
  over it; the buffer holds the same elements either way.
\<close>

definition initial_copy :: "ClientState \<Rightarrow> float list" where
  "initial_copy st =
     (if length (resultData st) \<noteq> length (matrixData st) then matrixData st
      else matrixData st @ drop (length (matrixData st)) (resultData st))"

text \<open>
  Whether the \<open>try\<close> block of \<open>perform_computation\<close> runs to its end is decided outside
  the program (memory and thread exhaustion). \<open>ThrowsInCopy\<close> is an exception raised by
  the allocation of the initial copy: the result buffer stays as it was. \<open>ThrowsInSpawn\<close>
  is an exception raised after the copy, by the creation of the first thread: the result
  buffer holds the copied input, no row has been processed. Both end in the \<open>catch\<close>
  block. An exception raised once a thread runs destroys a joinable thread and
  terminates the process; it is left out.
\<close>

datatype worker_env = Completes | ThrowsInCopy | ThrowsInSpawn

definition perform_computation :: "worker_env \<Rightarrow> ClientState \<Rightarrow> ClientState option" where
  "perform_computation env st =
     (case env of
        ThrowsInCopy \<Rightarrow>
          Some (st\<lparr>socket := log_line ComputationException (socket st),
                  errorOccurred := True, processingDone := False,
                  processingStarted := False\<rparr>)
      | ThrowsInSpawn \<Rightarrow>
          Some (st\<lparr>socket := log_line ComputationException (socket st),
                  resultData := initial_copy st,
                  errorOccurred := True, processingDone := False,
                  processingStarted := False\<rparr>)
      | Completes \<Rightarrow>
          (case run_tasks (initial_copy st) (matrixSize st)
                  (chunks (matrixSize st) (numThreads st)) of
             None \<Rightarrow> None
           | Some r \<Rightarrow>
               Some (st\<lparr>resultData := r, processingDone := True, errorOccurred := False,
                       processingStarted := False\<rparr>)))"

section \<open>Session handler (server.cpp, handle_client)\<close>

text \<open>
  The worker thread runs beside the handler. In the model it runs in one piece, either
  when the scheduler lets it finish (\<open>worker_finishes\<close>) or, at the latest, when the
  handler joins it.
\<close>

definition worker_finishes :: "worker_env \<Rightarrow> ClientState \<Rightarrow> ClientState option" where
  "worker_finishes env st =
     (if workerThread st = Running
      then map_option (\<lambda>s. s\<lparr>workerThread := Finished\<rparr>) (perform_computation env st)
      else Some st)"

definition join_worker :: "worker_env \<Rightarrow> ClientState \<Rightarrow> ClientState option" where
  "join_worker env st =
     (if workerThread st \<noteq> NotJoinable
      then map_option (\<lambda>s. s\<lparr>workerThread := NotJoinable\<rparr>) (worker_finishes env (record_event EvJoin st))
      else Some st)"

definition reply :: "u32 \<Rightarrow> ClientState \<Rightarrow> ClientState \<times> bool" where
  "reply code st =
     (case send_uint32 (socket st) code of
        (ok, s) \<Rightarrow> (record_event (EvSendU32 code) (st\<lparr>socket := s\<rparr>), ok))"

definition handle_config :: "worker_env \<Rightarrow> ClientState \<Rightarrow> (ClientState \<times> bool) option" where
  "handle_config env st =
     (case recv_uint32 (socket st) (matrixSize st) of (ok1, n, s1) \<Rightarrow>
      let st1 = record_event EvRecvU32 (st\<lparr>socket := s1, matrixSize := n\<rparr>) in
      if \<not> ok1 then Some (st1, False)
      else
      case recv_uint32 (socket st1) (numThreads st1) of (ok2, t, s2) \<Rightarrow>
      let st2 = record_event EvRecvU32 (st1\<lparr>socket := s2, numThreads := t\<rparr>) in
      if \<not> ok2 then Some (st2, False)
      else if matrixSize st2 = 0 \<or> matrixSize st2 > 3000 then
        Some (fst (reply RESP_ERROR
                     (st2\<lparr>socket := log_line (InvalidMatrixSize (matrixSize st2)) (socket st2)\<rparr>)),
              False)
      else
      let dataSize = unat (matrixSize st2) * unat (matrixSize st2) in
      case recv_floats (socket st2) (matrixData st2) dataSize of (ok3, d, s3) \<Rightarrow>
      let st3 = record_event (EvRecvFloats dataSize) (st2\<lparr>socket := s3, matrixData := d\<rparr>) in
      if \<not> ok3 then Some (st3, False)
      else
      let st4 = st3\<lparr>dataReceived := True, processingStarted := False,
                    processingDone := False, errorOccurred := False\<rparr> in
      case join_worker env st4 of
        None \<Rightarrow> None
      | Some st5 \<Rightarrow> Some (reply RESP_ACK st5))"

definition handle_start :: "worker_env \<Rightarrow> ClientState \<Rightarrow> (ClientState \<times> bool) option" where
  "handle_start env st =
     (if \<not> dataReceived st then
        Some (reply RESP_ERROR (st\<lparr>socket := log_line StartBeforeConfig (socket st)\<rparr>))
      else if processingStarted st then
        Some (reply RESP_ACK (st\<lparr>socket := log_line StartWhileProcessing (socket st)\<rparr>))
      else
      case join_worker env st of
        None \<Rightarrow> None
      | Some st1 \<Rightarrow>
          let st2 = st1\<lparr>processingStarted := True, processingDone := False,
                        errorOccurred := False\<rparr>;
              st3 = record_event EvSpawn (st2\<lparr>workerThread := Running\<rparr>)
          in Some (reply RESP_ACK st3))"

definition status_response :: "ClientState \<Rightarrow> u32 \<times> bool" where
  "status_response st =
     (if errorOccurred st then (RESP_ERROR, False)
      else if processingDone st then (RESP_RESULT, True)
      else if processingStarted st then (RESP_STATUS_PENDING, False)
      else (RESP_ERROR, False))"

definition handle_status :: "ClientState \<Rightarrow> ClientState \<times> bool" where
  "handle_status st =
     (case status_response st of (response_code, send_data) \<Rightarrow>
      case reply response_code st of (st1, ok1) \<Rightarrow>
      if \<not> ok1 then (st1, False)
      else if send_data then
        (case reply (matrixSize st1) st1 of (st2, ok2) \<Rightarrow>
         if \<not> ok2 then (st2, False)
         else case send_floats (socket st2) (resultData st2) of
                (ok3, s3) \<Rightarrow>
                  (record_event (EvSendFloats (length (resultData st2))) (st2\<lparr>socket := s3\<rparr>), ok3))
      else (st1, True))"

definition handle_unknown :: "u32 \<Rightarrow> ClientState \<Rightarrow> ClientState \<times> bool" where
  "handle_unknown command st =
     reply RESP_ERROR (st\<lparr>socket := log_line (UnknownCommand command) (socket st)\<rparr>)"

text \<open>
  One turn of the \<open>while (keep_connection)\<close> loop: the new state and the new value of
  \<open>keep_connection\<close>. The variable \<open>command\<close> is uninitialised before the read; its
  content after a failed read is never used. Exceptions from memory or thread exhaustion
  inside the handler, which end the session through the outer \<open>catch\<close>, are left out.
\<close>

definition handle_command :: "worker_env \<Rightarrow> ClientState \<Rightarrow> (ClientState \<times> bool) option" where
  "handle_command env st =
     (case recv_uint32 (socket st) 0 of (ok, command, s) \<Rightarrow>
      let st0 = record_event EvRecvU32 (st\<lparr>socket := s\<rparr>) in
      if \<not> ok then Some (st0, False)
      else if command = CMD_CONFIG_DATA then handle_config env st0
      else if command = CMD_START_COMP then handle_start env st0
      else if command = CMD_GET_STATUS then Some (handle_status st0)
      else Some (handle_unknown command st0))"

text \<open>Leaving \<open>handle_client\<close>: the destructor of the state joins the worker.\<close>

definition disconnect :: "worker_env \<Rightarrow> ClientState \<Rightarrow> ClientState option" where
  "disconnect env st = join_worker env st"

section \<open>Row chunks, as the specification words them\<close>

text \<open>
  With \<open>q = N div T\<close> and \<open>r = N mod T\<close>, chunk \<open>k\<close> starts at row
  \<open>k * q + min k r\<close>: the first \<open>r\<close> chunks have \<open>q + 1\<close> rows, the others \<open>q\<close>.
\<close>

definition chunk_start :: "nat \<Rightarrow> nat \<Rightarrow> nat \<Rightarrow> nat" where
  "chunk_start N T k = k * (N div T) + min k (N mod T)"

definition chunks_spec :: "nat \<Rightarrow> nat \<Rightarrow> (nat \<times> nat) list" where
  "chunks_spec N T = map (\<lambda>k. (chunk_start N T k, chunk_start N T (Suc k))) [0..<min T N]"

definition unat_pair :: "u32 \<times> u32 \<Rightarrow> nat \<times> nat" where
  "unat_pair p = (unat (fst p), unat (snd p))"

text \<open>
  A list of row ranges is the partition the specification describes: \<open>min T N\<close> ranges,
  range \<open>k\<close> with \<open>q + 1\<close> rows if \<open>k < r\<close> and \<open>q\<close> rows otherwise, none of them
  empty, each starting where the previous one ends (the first at 0), and every row of
  \<open>[0, N)\<close> in exactly one range.
\<close>

definition row_partition :: "nat \<Rightarrow> nat \<Rightarrow> (nat \<times> nat) list \<Rightarrow> bool" where
  "row_partition N T cs \<longleftrightarrow>
     length cs = min T N
     \<and> (\<forall>k<length cs.
           snd (cs ! k) = fst (cs ! k) + (if k < N mod T then N div T + 1 else N div T)
           \<and> fst (cs ! k) < snd (cs ! k)
           \<and> fst (cs ! k) = (if k = 0 then 0 else snd (cs ! (k - 1))))
     \<and> (\<forall>i<N. \<exists>!k. k < length cs \<and> fst (cs ! k) \<le> i \<and> i < snd (cs ! k))"

section \<open>The result of the worker, as the specification words it\<close>

text \<open>
  \<open>float_le\<close> is the IEEE comparison \<open>\<le>\<close>. \<open>scan_max\<close> is the running maximum the
  inner loop computes, started at minus infinity. \<open>is_row_max\<close> is the maximum of a row
  as the specification means it: an element of the row that every element is below or
  equal to. \<open>is_max_skipping_nan\<close> only asks that of the elements that are not NaN.
\<close>

definition float_le :: "float \<Rightarrow> float \<Rightarrow> bool" where
  "float_le a b = (\<not> is_nan a \<and> \<not> is_nan b \<and> float_key a \<le> float_key b)"

definition scan_step :: "float \<Rightarrow> float \<Rightarrow> float" where
  "scan_step maxVal x = (if float_gt x maxVal then x else maxVal)"

definition scan_max :: "float list \<Rightarrow> float" where
  "scan_max row = foldl scan_step neg_infinity row"

definition is_row_max :: "float list \<Rightarrow> float \<Rightarrow> bool" where
  "is_row_max row v \<longleftrightarrow> v \<in> set row \<and> (\<forall>x\<in>set row. float_le x v)"

definition is_max_skipping_nan :: "float list \<Rightarrow> float \<Rightarrow> bool" where
  "is_max_skipping_nan row v \<longleftrightarrow>
     v \<in> set row \<and> \<not> is_nan v \<and> (\<forall>x\<in>set row. \<not> is_nan x \<longrightarrow> float_le x v)"

text \<open>
  Row \<open>i\<close> of a row-major matrix of side \<open>N\<close>; the transformation of one row; the
  transformation of the rows \<open>a \<le> i < b\<close> in ascending order.
\<close>

definition matrix_row :: "float list \<Rightarrow> nat \<Rightarrow> nat \<Rightarrow> float list" where
  "matrix_row m N i = take N (drop (i * N) m)"

definition set_diag :: "float list \<Rightarrow> nat \<Rightarrow> nat \<Rightarrow> float list" where
  "set_diag m N i = m[i * N + i := scan_max (matrix_row m N i)]"

definition rows_done :: "float list \<Rightarrow> nat \<Rightarrow> nat \<Rightarrow> nat \<Rightarrow> float list" where
  "rows_done m N a b = foldl (\<lambda>m' i. set_diag m' N i) m [a..<b]"

text \<open>The transformation of a list of rows, in the order of the list.\<close>

definition rows_in_order :: "float list \<Rightarrow> nat \<Rightarrow> nat list \<Rightarrow> float list" where
  "rows_in_order m N rows = foldl (\<lambda>m' r. set_diag m' N r) m rows"


text \<open>
  \<open>worker_post\<close>: off the diagonal the result equals the input; on the diagonal of row
  \<open>i\<close> stands the maximum of the non-NaN elements of input row \<open>i\<close>, or minus infinity
  when the row holds NaNs only. \<open>claimed_post\<close> is the postcondition with the plain
  maximum.
\<close>

definition diag_value_ok :: "float list \<Rightarrow> float \<Rightarrow> bool" where
  "diag_value_ok row v =
     (if \<forall>x\<in>set row. is_nan x then v = neg_infinity else is_max_skipping_nan row v)"

definition worker_post :: "nat \<Rightarrow> float list \<Rightarrow> float list \<Rightarrow> bool" where
  "worker_post N input result \<longleftrightarrow>
     length result = length input
     \<and> (\<forall>i<N. \<forall>j<N.
           if j = i then diag_value_ok (matrix_row input N i) (result ! (i * N + j))
           else result ! (i * N + j) = input ! (i * N + j))"

definition claimed_post :: "nat \<Rightarrow> float list \<Rightarrow> float list \<Rightarrow> bool" where
  "claimed_post N input result \<longleftrightarrow>
     (\<forall>i<N. \<forall>j<N.
        if j = i then is_row_max (matrix_row input N i) (result ! (i * N + j))
        else result ! (i * N + j) = input ! (i * N + j))"

section \<open>Status polls and example states\<close>

text \<open>The frame a status poll puts on the wire, as the specification words it.\<close>

definition status_frame :: "ClientState \<Rightarrow> byte list" where
  "status_frame st =
     (if errorOccurred st then be_bytes RESP_ERROR
      else if processingDone st then
        be_bytes RESP_RESULT @ be_bytes (matrixSize st) @ bytes_of_floats (resultData st)
      else if processingStarted st then be_bytes RESP_STATUS_PENDING
      else be_bytes RESP_ERROR)"

text \<open>\<open>k\<close> status commands in a row, with nothing between them.\<close>

fun polls :: "nat \<Rightarrow> ClientState \<Rightarrow> ClientState" where
  "polls 0 st = st"
| "polls (Suc k) st = polls k (fst (handle_status st))"

text \<open>
  The session of scenario 1 (N = 1, T = 1, input 7.0) after its worker has finished:
  state Done.
\<close>

definition example_socket :: Socket where
  "example_socket =
     \<lparr>rx = [], rx_end = OrderlyClose, tx = [], tx_budget = 64, tx_error = 0, cerr = []\<rparr>"

definition done_state :: ClientState where
  "done_state =
     (initial_state example_socket)
       \<lparr>matrixSize := 1, numThreads := 1, matrixData := [0x40E00000],
        resultData := [0x40E00000], dataReceived := True, processingDone := True,
        workerThread := Finished\<rparr>"

text \<open>The diagnostic a failed four-byte read produces, by cause.\<close>

definition read_failure_cause :: "Socket \<Rightarrow> diag" where
  "read_failure_cause s =
     (case rx_end s of
        OrderlyClose \<Rightarrow>
          if rx s = [] then RecvU32Disconnected else RecvU32Incomplete (int (length (rx s)))
      | SocketFailure code \<Rightarrow> RecvU32Failed code)"

text \<open>
  The session of scenario 1 right after its \<open>CMD_START\<close>, the worker still running,
  with the body of a second \<open>CONFIG_DATA\<close> (N = 1, T = 1, payload 9.0) arriving.
\<close>

definition running_state :: ClientState where
  "running_state =
     (initial_state (example_socket\<lparr>rx := [0, 0, 0, 1, 0, 0, 0, 1, 0, 0, 0x10, 0x41]\<rparr>))
       \<lparr>matrixSize := 1, numThreads := 1, matrixData := [0x40E00000],
        dataReceived := True, processingStarted := True, workerThread := Running,
        trace := [EvSpawn, EvSendU32 RESP_ACK]\<rparr>"

text \<open>
  Two sessions whose worker is about to run: a 1 x 1 matrix holding a quiet NaN, and the
  matrix of scenario 2 (N = 3, T = 2, entries 1.0 to 9.0).
\<close>

definition nan_state :: ClientState where
  "nan_state =
     (initial_state example_socket)
       \<lparr>matrixSize := 1, numThreads := 1, matrixData := [0x7FC00000],
        dataReceived := True, processingStarted := True, workerThread := Running\<rparr>"

definition scenario2_state :: ClientState where
  "scenario2_state =
     (initial_state example_socket)
       \<lparr>matrixSize := 3, numThreads := 2,
        matrixData := [0x3F800000, 0x40000000, 0x40400000,
                       0x40800000, 0x40A00000, 0x40C00000,
                       0x40E00000, 0x41000000, 0x41100000],
        dataReceived := True, processingStarted := True, workerThread := Running\<rparr>"

text \<open>
  Two fresh sessions with the body of a \<open>CONFIG_DATA\<close> arriving: N = 0, T = 1 followed by
  four more bytes (scenario 5), and N = 1, T = 0 followed by the payload 7.0.
\<close>

definition config_zero_state :: ClientState where
  "config_zero_state =
     initial_state (example_socket\<lparr>rx := [0, 0, 0, 0, 0, 0, 0, 1, 1, 2, 3, 4]\<rparr>)"

definition config_one_state :: ClientState where
  "config_one_state =
     initial_state (example_socket\<lparr>rx := [0, 0, 0, 1, 0, 0, 0, 0, 0, 0, 0xE0, 0x40]\<rparr>)"

section \<open>Facts about the codec\<close>

lemma length_le_bytes [simp]: "length (le_bytes v) = 4"
  by (simp add: le_bytes_def)

lemma le_bytes_le_word4: "le_bytes (le_word [a, b, c, d]) = [a, b, c, d]"
  unfolding le_bytes_def
  apply simp
  apply (intro conjI bit_word_eqI)
  apply (auto simp: bit_simps dest: bit_imp_le_length)
  done

lemma le_word_le_bytes: "le_word (le_bytes v) = v"
  unfolding le_bytes_def
  apply simp
  apply (intro conjI bit_word_eqI)
  apply (auto simp: bit_simps)
  subgoal for n
    apply (rule ccontr)
    apply (subgoal_tac "24 + (n - 24) = n")
     apply simp
    apply arith
    done
  done

lemma list4: "length bs = 4 \<Longrightarrow> \<exists>a b c d. bs = [a, b, c, d]"
  by (cases bs; simp; cases "tl bs"; simp; cases "tl (tl bs)"; simp; cases "tl (tl (tl bs))"; simp)

lemma le_bytes_le_word: "length bs = 4 \<Longrightarrow> le_bytes (le_word bs) = bs"
  using list4 [of bs] le_bytes_le_word4 by auto

lemma le_bytes_htonl: "le_bytes (htonl v) = be_bytes v"
  by (simp add: htonl_def be_bytes_def le_bytes_le_word)

lemma ntohl_le_word: "length bs = 4 \<Longrightarrow> ntohl (le_word bs) = be_word bs"
  by (simp add: ntohl_def be_word_def le_bytes_le_word)

lemma be_word_be_bytes: "be_word (be_bytes v) = v"
  by (simp add: be_word_def be_bytes_def le_word_le_bytes)

lemma send_uint32_ok:
  "4 \<le> tx_budget s \<Longrightarrow>
   send_uint32 s v = (True, s\<lparr>tx := tx s @ be_bytes v, tx_budget := tx_budget s - 4\<rparr>)"
  by (simp add: send_uint32_def send_raw_def le_bytes_htonl SOCKET_ERROR_def Let_def min_def be_bytes_def)

lemma recv_uint32_ok:
  "4 \<le> length (rx s) \<Longrightarrow>
   recv_uint32 s v = (True, be_word (take 4 (rx s)), s\<lparr>rx := drop 4 (rx s)\<rparr>)"
  by (simp add: recv_uint32_def recv_waitall_def ntohl_le_word Let_def)

lemma length_bytes_of_floats [simp]: "length (bytes_of_floats fs) = 4 * length fs"
  by (induction fs) (simp_all add: bytes_of_floats_def)

lemma length_resize [simp]: "length (resize fs n) = n"
  by (simp add: resize_def)

lemma send_floats_ok:
  "4 * length fs \<le> tx_budget s \<Longrightarrow>
   send_floats s fs =
     (True, s\<lparr>tx := tx s @ bytes_of_floats fs, tx_budget := tx_budget s - 4 * length fs\<rparr>)"
proof (cases "fs = []")
  case True
  then show ?thesis by (simp add: send_floats_def bytes_of_floats_def)
next
  case False
  assume b: "4 * length fs \<le> tx_budget s"
  let ?bs = "bytes_of_floats fs"
  let ?s' = "s\<lparr>tx := tx s @ ?bs, tx_budget := tx_budget s - 4 * length fs\<rparr>"
  have pos: "0 < length fs" using False by simp
  then have ne: "?bs \<noteq> []" by (metis length_bytes_of_floats length_0_conv mult_is_0 zero_neq_numeral less_numeral_extra(3))
  have nz: "tx_budget s \<noteq> 0" using b pos by linarith
  have n: "nat (4 * int (length fs)) = 4 * length fs" by linarith
  have r: "send_raw s ?bs = (int (4 * length fs), 0, ?s')"
    using b nz by (simp add: send_raw_def Let_def min_def)
  have l2: "send_floats_loop ?s' [] = (True, ?s')"
    by (subst send_floats_loop.simps) simp
  have l1: "send_floats_loop s ?bs = send_floats_loop ?s' []"
    using ne pos by (subst send_floats_loop.simps) (simp add: r n SOCKET_ERROR_def)
  show ?thesis
    using pos l1 l2 by (simp add: send_floats_def)
qed

lemma recv_floats_ok:
  "0 < count \<Longrightarrow> 4 * count \<le> length (rx s) \<Longrightarrow>
   recv_floats s fs count =
     (True, floats_of_bytes (take (4 * count) (rx s)), s\<lparr>rx := drop (4 * count) (rx s)\<rparr>)"
proof -
  assume c: "0 < count" and l: "4 * count \<le> length (rx s)"
  let ?buf = "bytes_of_floats (resize fs count)"
  let ?s' = "s\<lparr>rx := drop (4 * count) (rx s)\<rparr>"
  let ?got = "take (4 * count) (rx s)"
  have ne: "rx s \<noteq> []" using c l by auto
  have r: "recv_some s (4 * count) = (int (4 * count), ?got, 0, ?s')"
    using ne l by (simp add: recv_some_def min_def)
  have lg: "length ?got = 4 * count" using l by simp
  have n: "nat (4 * int count) = 4 * count" by linarith
  have l2: "recv_floats_loop ?s' ?got (4 * count) = (True, ?got, ?s')"
    by (subst recv_floats_loop.simps) (simp add: lg)
  have l1: "recv_floats_loop s ?buf 0 = recv_floats_loop ?s' ?got (4 * count)"
    using c l by (subst recv_floats_loop.simps) (simp add: r n SOCKET_ERROR_def)
  show ?thesis
    using c l1 l2 by (simp add: recv_floats_def)
qed

lemma reply_ok:
  "4 \<le> tx_budget (socket st) \<Longrightarrow>
   reply code st =
     (record_event (EvSendU32 code)
        (st\<lparr>socket := (socket st)\<lparr>tx := tx (socket st) @ be_bytes code,
                                    tx_budget := tx_budget (socket st) - 4\<rparr>\<rparr>), True)"
  by (simp add: reply_def send_uint32_ok)

lemma recv_uint32_fail_cerr:
  "length (rx s) < 4 \<Longrightarrow>
   fst (recv_uint32 s v) = False \<and>
   cerr (snd (snd (recv_uint32 s v))) =
     cerr s @ read_failure_cause s #
       (if rx_end s = SocketFailure WSAECONNRESET then [ConnectionReset] else [])"
  by (cases "rx_end s")
     (auto simp: recv_uint32_def recv_waitall_def read_failure_cause_def log_line_def
                 SOCKET_ERROR_def Let_def)

lemma recv_uint32_or_throw_eq:
  "fst (recv_uint32_or_throw s) =
     (if 4 \<le> length (rx s) then Inr (be_word (take 4 (rx s)))
      else Inl (RuntimeError (read_failure_cause s)))"
  by (cases "rx_end s")
     (auto simp: recv_uint32_or_throw_def recv_waitall_def read_failure_cause_def
                 SOCKET_ERROR_def ntohl_le_word)

section \<open>Facts about machine arithmetic\<close>

lemma unat_u32_bound: "unat (x :: u32) < 4294967296"
  using unsigned_less [of x, where ?'a = nat] by simp

lemma sint_small: "unat (x :: u32) < 2 ^ 31 \<Longrightarrow> sint x = uint x"
proof -
  assume a: "unat x < 2 ^ 31"
  have "int (unat x) < 2 ^ 31" using a by (metis of_nat_less_iff of_nat_numeral of_nat_power)
  then have "uint x < 2 ^ 31" by simp
  moreover have "- (2 ^ 31) \<le> uint x" by (smt (verit) uint_ge_0 zero_less_power)
  ultimately have "signed_take_bit 31 (uint x) = uint x"
    by (simp add: signed_take_bit_int_eq_self)
  then show ?thesis by (simp add: sint_uint)
qed

lemma sless_small:
  "unat (x :: u32) < 2 ^ 31 \<Longrightarrow> unat (y :: u32) < 2 ^ 31 \<Longrightarrow> (x <s y) = (unat x < unat y)"
  by (simp add: word_sless_alt sint_small word_less_nat_alt [symmetric] word_less_def)

lemma unat_ucast64: "unat (ucast (x :: u32) :: size_t) = unat x"
proof -
  have "uint (ucast x :: size_t) = uint x" by (rule uint_up_ucast) (simp add: is_up)
  then show ?thesis by (simp only: unat_eq_nat_uint)
qed

lemma unat_scast64: "unat (x :: u32) < 2 ^ 31 \<Longrightarrow> unat (scast x :: size_t) = unat x"
proof -
  assume a: "unat x < 2 ^ 31"
  have "(scast x :: size_t) = word_of_int (sint x)" by (rule scast_eq)
  also have "\<dots> = word_of_int (uint x)" by (simp only: sint_small [OF a])
  also have "\<dots> = ucast x" by (rule ucast_eq [symmetric])
  finally show ?thesis by (simp only: unat_ucast64)
qed

lemma unat_min: "unat (min (a :: u32) b) = min (unat a) (unat b)"
  by (simp add: min_def word_le_nat_alt)

lemma unat_add_small:
  "unat (a :: u32) + unat b < 2 ^ 32 \<Longrightarrow> unat (a + b) = unat a + unat b"
  using unat_add_lem [of a b] by simp

lemma row_index:
  assumes "unat (i :: u32) < 2 ^ 31"
  shows "unat ((scast i :: size_t) * ucast (sz :: u32) + ucast (j :: u32)) = unat i * unat sz + unat j"
proof -
  have i: "unat i < 2 ^ 31" by (rule assms)
  have s: "unat sz < 2 ^ 32" using unat_u32_bound [of sz] by simp
  have j: "unat j < 2 ^ 32" using unat_u32_bound [of j] by simp
  have "unat i * unat sz \<le> 2 ^ 31 * 2 ^ 32"
    using i s by (intro mult_mono) simp_all
  then have p: "unat i * unat sz + unat j < 2 ^ 64" using j by simp
  have "unat ((scast i :: size_t) * ucast sz) = unat i * unat sz"
    using p unat_mult_lem [of "scast i :: size_t" "ucast sz"]
    by (simp add: unat_scast64 [OF i] unat_ucast64)
  then show ?thesis
    using p unat_add_lem [of "(scast i :: size_t) * ucast sz" "ucast j"]
    by (simp add: unat_ucast64)
qed


section \<open>Facts about the row chunks\<close>

lemma chunk_start_0 [simp]: "chunk_start N T 0 = 0"
  by (simp add: chunk_start_def)

lemma chunk_start_Suc:
  "chunk_start N T (Suc k) = chunk_start N T k + (N div T + (if k < N mod T then 1 else 0))"
  by (simp add: chunk_start_def min_def)

lemma chunk_start_mono: "k \<le> k' \<Longrightarrow> chunk_start N T k \<le> chunk_start N T k'"
  unfolding chunk_start_def by (intro add_mono mult_le_mono1) (simp_all add: min_def)

lemma chunk_start_all: "1 \<le> T \<Longrightarrow> chunk_start N T T = N"
proof -
  assume "1 \<le> T"
  then have "N mod T < T" by simp
  then have "min T (N mod T) = N mod T" by simp
  then show ?thesis by (simp add: chunk_start_def)
qed

lemma chunk_start_le: "1 \<le> T \<Longrightarrow> k \<le> T \<Longrightarrow> chunk_start N T k \<le> N"
  using chunk_start_mono [of k T N T] chunk_start_all [of T N] by simp

lemma chunk_rows_le: "1 \<le> T \<Longrightarrow> N div T + (if k < N mod T then 1 else 0) \<le> (N :: nat)"
proof (cases "k < N mod T")
  case False
  then show ?thesis by simp
next
  case True
  assume T: "1 \<le> T"
  have "N div T * 1 \<le> N div T * T" using T by (intro mult_le_mono2) simp
  then have a: "N div T \<le> N div T * T" by simp
  have b: "1 \<le> N mod T" using True by simp
  have c: "N div T * T + N mod T = N" by simp
  have "N div T + 1 \<le> N" using a b c by linarith
  then show ?thesis using True by simp
qed

lemma chunk_rows_pos:
  "1 \<le> T \<Longrightarrow> k < min T N \<Longrightarrow> 0 < N div T + (if k < N mod T then 1 else (0 :: nat))"
proof (cases "T \<le> N")
  case True
  assume "1 \<le> T"
  then have "0 < N div T" using True by (simp add: div_greater_zero_iff)
  then show ?thesis by simp
next
  case False
  assume "k < min T N"
  then show ?thesis using False by simp
qed

lemma chunk_start_past:
  "1 \<le> T \<Longrightarrow> min T N \<le> k \<Longrightarrow> k \<le> T \<Longrightarrow> chunk_start N T k = N"
proof (cases "T \<le> N")
  case True
  assume "1 \<le> T" "min T N \<le> k" "k \<le> T"
  then have "k = T" using True by simp
  then show ?thesis using \<open>1 \<le> T\<close> by (simp add: chunk_start_all)
next
  case False
  assume "min T N \<le> k"
  then show ?thesis using False by (simp add: chunk_start_def)
qed

lemma spawn_loop_spec:
  assumes sz: "unat sz = N" and N: "N < 2 ^ 31" and tu: "unat tu = T" and T: "1 \<le> T"
  shows "unat iw = i \<Longrightarrow> i \<le> T \<Longrightarrow> unat startRow = chunk_start N T i \<Longrightarrow>
         map unat_pair (spawn_loop sz tu (sz div tu) (sz mod tu) iw startRow) =
         map (\<lambda>k. (chunk_start N T k, chunk_start N T (Suc k))) [min i (min T N)..<min T N]"
proof (induction "T - i" arbitrary: i iw startRow)
  case 0
  then have "i = T" by simp
  then have "\<not> iw < tu" using 0 tu by (simp add: word_less_nat_alt)
  then show ?case using \<open>i = T\<close> by (subst spawn_loop.simps) simp
next
  case (Suc d)
  let ?M = "min T N"
  let ?q = "N div T" and ?r = "N mod T"
  let ?rows = "sz div tu + (if iw < sz mod tu then 1 else 0)"
  let ?n = "?q + (if i < ?r then 1 else 0)"
  have iT: "i < T" using Suc.hyps(2) by simp
  have lt: "iw < tu" using iT Suc.prems(1) tu by (simp add: word_less_nat_alt)
  have i1: "unat (iw + 1) = Suc i" using u32_succ [OF lt] Suc.prems(1) by simp
  have q: "unat (sz div tu) = ?q" by (simp add: unat_div sz tu)
  have r: "unat (sz mod tu) = ?r" by (simp add: unat_mod sz tu)
  have c2: "(iw < sz mod tu) = (i < ?r)" by (simp add: word_less_nat_alt r Suc.prems(1))
  have nN: "?n \<le> N" using chunk_rows_le [OF T, of N i] by simp
  have rows: "unat ?rows = ?n"
  proof (cases "i < ?r")
    case True
    have "unat (sz div tu) + unat (1 :: u32) < 2 ^ 32" using nN N True q by simp
    then have "unat (sz div tu + 1) = unat (sz div tu) + unat (1 :: u32)" by (rule unat_add_small)
    then show ?thesis using True c2 q by simp
  next
    case False
    then show ?thesis using c2 q by simp
  qed
  have rows31: "unat ?rows < 2 ^ 31" using rows nN N by simp
  have pos: "(0 <s ?rows) = (0 < ?n)"
    using sless_small [of 0 ?rows] rows31 rows by simp
  have st: "(startRow < sz) = (chunk_start N T i < N)"
    by (simp add: word_less_nat_alt sz Suc.prems(3))
  have d: "d = T - Suc i" using Suc.hyps(2) by simp
  show ?case
  proof (cases "i < ?M")
    case True
    have npos: "0 < ?n" using chunk_rows_pos [OF T True] by simp
    have nxt: "chunk_start N T (Suc i) = chunk_start N T i + ?n" by (simp add: chunk_start_Suc)
    have le: "chunk_start N T (Suc i) \<le> N" using chunk_start_le [OF T, of "Suc i" N] iT by simp
    have sl: "chunk_start N T i < N" using nxt le npos by linarith
    have "unat startRow + unat ?rows < 2 ^ 32" using Suc.prems(3) rows nxt le N by simp
    then have "unat (startRow + ?rows) = unat startRow + unat ?rows" by (rule unat_add_small)
    then have e: "unat (min (startRow + ?rows) sz) = chunk_start N T (Suc i)"
      using Suc.prems(3) rows nxt le sz by (simp add: unat_min)
    have ih: "map unat_pair (spawn_loop sz tu (sz div tu) (sz mod tu) (iw + 1)
                (min (startRow + ?rows) sz)) =
              map (\<lambda>k. (chunk_start N T k, chunk_start N T (Suc k))) [min (Suc i) ?M..<?M]"
      using Suc.hyps(1) [OF d i1 _ e] iT by simp
    have m: "min (Suc i) ?M = Suc i" "min i ?M = i" using True by simp_all
    have up: "[i..<?M] = i # [Suc i..<?M]" using True by (simp add: upt_conv_Cons)
    have step: "spawn_loop sz tu (sz div tu) (sz mod tu) iw startRow =
                  (startRow, min (startRow + ?rows) sz)
                    # spawn_loop sz tu (sz div tu) (sz mod tu) (iw + 1) (min (startRow + ?rows) sz)"
      using lt pos npos st sl by (subst spawn_loop.simps) (simp add: Let_def)
    show ?thesis
      by (simp only: step list.map ih m up) (simp add: unat_pair_def Suc.prems(3) e)
  next
    case False
    then have past: "?M \<le> i" by linarith
    then have TN: "N < T" using iT by simp
    then have "?q = 0" "?r = N" by simp_all
    then have n0: "?n = 0" using past TN by simp
    have same: "chunk_start N T (Suc i) = chunk_start N T i"
      using chunk_start_past [OF T past] chunk_start_past [OF T, of N "Suc i"] past iT by simp
    have ih: "map unat_pair (spawn_loop sz tu (sz div tu) (sz mod tu) (iw + 1) startRow) =
              map (\<lambda>k. (chunk_start N T k, chunk_start N T (Suc k))) [min (Suc i) ?M..<?M]"
      using Suc.hyps(1) [OF d i1 _ ] iT Suc.prems(3) same by simp
    have step: "spawn_loop sz tu (sz div tu) (sz mod tu) iw startRow =
                  spawn_loop sz tu (sz div tu) (sz mod tu) (iw + 1) startRow"
      using lt pos n0 by (subst spawn_loop.simps) (simp add: Let_def)
    have m: "min (Suc i) ?M = ?M" "min i ?M = ?M" using past by simp_all
    show ?thesis by (simp only: step ih m)
  qed
qed

lemma chunks_spec_eq:
  assumes "unat sz < 2 ^ 31" and "1 \<le> unat t"
  shows "map unat_pair (chunks sz t) = chunks_spec (unat sz) (unat t)"
proof -
  have m: "max 1 t = t" using assms(2) by (simp add: max_def word_le_nat_alt)
  show ?thesis
    using spawn_loop_spec [OF refl assms(1) refl assms(2), of 0 0 0]
    by (simp add: chunks_def chunks_spec_def m Let_def)
qed


lemma step_cover:
  fixes f :: "nat \<Rightarrow> nat"
  assumes "f 0 = 0"
  shows "i < f M \<Longrightarrow> \<exists>k<M. f k \<le> i \<and> i < f (Suc k)"
proof (induction M)
  case 0
  then show ?case using assms by simp
next
  case (Suc M)
  show ?case
  proof (cases "i < f M")
    case True
    then obtain k where "k < M" "f k \<le> i \<and> i < f (Suc k)" using Suc.IH by blast
    then show ?thesis using less_Suc_eq by blast
  next
    case False
    then have "f M \<le> i \<and> i < f (Suc M)" using Suc.prems by simp
    then show ?thesis by blast
  qed
qed

lemma chunks_spec_partition:
  assumes T: "1 \<le> T"
  shows "row_partition N T (chunks_spec N T)"
proof -
  let ?M = "min T N"
  let ?S = "chunk_start N T"
  let ?cs = "chunks_spec N T"
  have len: "length ?cs = ?M" by (simp add: chunks_spec_def)
  have nth: "?cs ! k = (?S k, ?S (Suc k))" if "k < ?M" for k
    using that by (simp add: chunks_spec_def)
  have sizes: "snd (?cs ! k) = fst (?cs ! k) + (if k < N mod T then N div T + 1 else N div T)
               \<and> fst (?cs ! k) < snd (?cs ! k)
               \<and> fst (?cs ! k) = (if k = 0 then 0 else snd (?cs ! (k - 1)))"
    if kl: "k < length ?cs" for k
  proof -
    have k: "k < ?M" using kl by (simp add: len)
    have p: "0 < N div T + (if k < N mod T then 1 else 0)" using chunk_rows_pos [OF T k] .
    have pr: "?cs ! (k - 1) = (?S (k - 1), ?S k)" if "k \<noteq> 0"
    proof -
      have "k - 1 < ?M" using k by linarith
      then have "?cs ! (k - 1) = (?S (k - 1), ?S (Suc (k - 1)))" by (rule nth)
      then show ?thesis using that by simp
    qed
    show ?thesis using p pr by (auto simp: nth [OF k] chunk_start_Suc)
  qed
  have cover: "\<exists>!k. k < length ?cs \<and> fst (?cs ! k) \<le> i \<and> i < snd (?cs ! k)" if i: "i < N" for i
  proof -
    have "?S ?M = N" using chunk_start_past [OF T, of N ?M] by simp
    then have "i < ?S ?M" using i by simp
    then obtain k where k: "k < ?M" "?S k \<le> i \<and> i < ?S (Suc k)"
      using step_cover [of ?S i ?M] by auto
    show ?thesis
    proof (rule ex1I [of _ k])
      show "k < length ?cs \<and> fst (?cs ! k) \<le> i \<and> i < snd (?cs ! k)"
        using k by (simp add: len nth)
    next
      fix k' assume a: "k' < length ?cs \<and> fst (?cs ! k') \<le> i \<and> i < snd (?cs ! k')"
      then have km: "k' < ?M" by (simp add: len)
      have k': "?S k' \<le> i" "i < ?S (Suc k')" using a nth [OF km] by simp_all
      show "k' = k"
      proof (rule ccontr)
        assume "k' \<noteq> k"
        then consider "Suc k' \<le> k" | "Suc k \<le> k'" by linarith
        then show False
        proof cases
          case 1
          then have "?S (Suc k') \<le> ?S k" by (rule chunk_start_mono)
          then show False using k k' by linarith
        next
          case 2
          then have "?S (Suc k) \<le> ?S k'" by (rule chunk_start_mono)
          then show False using k k' by linarith
        qed
      qed
    qed
  qed
  show ?thesis
    unfolding row_partition_def using len sizes cover by blast
qed

lemma chunks_scenario3:
  "map unat_pair (chunks 4 8) = [(0, 1), (1, 2), (2, 3), (3, 4)]"
  by code_simp

section \<open>Facts about the comparison of floats\<close>

lemma neg_infinity_facts:
  "sign_bit neg_infinity" "magnitude neg_infinity = 0x7F800000" "\<not> is_nan neg_infinity"
  "float_key neg_infinity = - 0x7F800000"
  by (simp_all add: neg_infinity_def sign_bit_def magnitude_def is_nan_def float_key_def)

lemma neg_infinity_unique:
  assumes s: "sign_bit x" and m: "magnitude x = 0x7F800000"
  shows "x = neg_infinity"
proof -
  have "(0x7FFFFFFF :: u32) = mask 31" by (simp add: mask_eq_exp_minus_1)
  then have t: "take_bit 31 x = (0x7F800000 :: u32)"
    using m unfolding magnitude_def by (simp add: take_bit_eq_mask)
  have "x = set_bit 31 (take_bit 31 x)"
    using s unfolding sign_bit_def
    by (intro bit_word_eqI) (auto simp: bit_simps)
  then have "x = set_bit 31 (0x7F800000 :: u32)" using t by simp
  then show ?thesis by (simp add: set_bit_eq_or neg_infinity_def)
qed

lemma float_key_lower: "\<not> is_nan x \<Longrightarrow> - 0x7F800000 \<le> float_key x"
proof -
  assume "\<not> is_nan x"
  then have "magnitude x \<le> 0x7F800000" by (simp add: is_nan_def not_less)
  then have a: "uint (magnitude x) \<le> 0x7F800000" by (simp add: word_le_def)
  have b: "0 \<le> uint (magnitude x)" by (rule uint_ge_0)
  show ?thesis
  proof (cases "sign_bit x")
    case True
    then have "float_key x = - uint (magnitude x)" by (simp add: float_key_def)
    then show ?thesis using a by linarith
  next
    case False
    then have "float_key x = uint (magnitude x)" by (simp add: float_key_def)
    then show ?thesis using b by linarith
  qed
qed

lemma float_key_lowest:
  assumes "\<not> is_nan x" and "float_key x \<le> - 0x7F800000"
  shows "x = neg_infinity"
proof -
  have nn: "0 \<le> uint (magnitude x)" by (rule uint_ge_0)
  have s: "sign_bit x"
  proof (rule ccontr)
    assume "\<not> sign_bit x"
    then have "float_key x = uint (magnitude x)" by (simp add: float_key_def)
    then show False using assms(2) nn by linarith
  qed
  then have k: "float_key x = - uint (magnitude x)" by (simp add: float_key_def)
  have "magnitude x \<le> 0x7F800000" using assms(1) by (simp add: is_nan_def not_less)
  then have "uint (magnitude x) \<le> 0x7F800000" by (simp add: word_le_def)
  then have "uint (magnitude x) = 0x7F800000" using k assms(2) by linarith
  then have "uint (magnitude x) = uint (0x7F800000 :: u32)" by simp
  then have "magnitude x = 0x7F800000" by (simp only: word_uint_eq_iff)
  then show ?thesis using s by (rule neg_infinity_unique [rotated])
qed

lemma scan_mem: "foldl scan_step acc xs \<in> insert acc (set xs)"
  by (induction xs arbitrary: acc) (auto simp: scan_step_def)

lemma scan_not_nan: "\<not> is_nan acc \<Longrightarrow> \<not> is_nan (foldl scan_step acc xs)"
  by (induction xs arbitrary: acc) (auto simp: scan_step_def float_gt_def)

lemma scan_key_acc: "\<not> is_nan acc \<Longrightarrow> float_key acc \<le> float_key (foldl scan_step acc xs)"
proof (induction xs arbitrary: acc)
  case Nil
  then show ?case by simp
next
  case (Cons x xs)
  have n: "\<not> is_nan (scan_step acc x)" using Cons.prems by (simp add: scan_step_def float_gt_def)
  have "float_key acc \<le> float_key (scan_step acc x)"
    by (simp add: scan_step_def float_gt_def)
  also have "\<dots> \<le> float_key (foldl scan_step (scan_step acc x) xs)" using Cons.IH [OF n] .
  finally show ?case by simp
qed

lemma scan_key_elem:
  "\<not> is_nan acc \<Longrightarrow> x \<in> set xs \<Longrightarrow> \<not> is_nan x \<Longrightarrow>
   float_key x \<le> float_key (foldl scan_step acc xs)"
proof (induction xs arbitrary: acc)
  case Nil
  then show ?case by simp
next
  case (Cons y ys)
  have n: "\<not> is_nan (scan_step acc y)" using Cons.prems(1) by (simp add: scan_step_def float_gt_def)
  show ?case
  proof (cases "x = y")
    case True
    have "float_key x \<le> float_key (scan_step acc y)"
      using True Cons.prems by (simp add: scan_step_def float_gt_def)
    also have "\<dots> \<le> float_key (foldl scan_step (scan_step acc y) ys)" using scan_key_acc [OF n] .
    finally show ?thesis by simp
  next
    case False
    then have "x \<in> set ys" using Cons.prems(2) by simp
    then show ?thesis using Cons.IH [OF n _ Cons.prems(3)] by simp
  qed
qed

lemma scan_all_nan: "\<forall>x\<in>set xs. is_nan x \<Longrightarrow> foldl scan_step acc xs = acc"
  by (induction xs arbitrary: acc) (auto simp: scan_step_def float_gt_def)

lemma scan_max_all_nan: "\<forall>x\<in>set row. is_nan x \<Longrightarrow> scan_max row = neg_infinity"
  by (simp add: scan_max_def scan_all_nan)

lemma scan_max_skipping_nan:
  assumes "\<exists>x\<in>set row. \<not> is_nan x"
  shows "is_max_skipping_nan row (scan_max row)"
proof -
  let ?v = "scan_max row"
  have nn: "\<not> is_nan ?v" by (simp add: scan_max_def scan_not_nan neg_infinity_facts)
  have ge: "float_le x ?v" if "x \<in> set row" "\<not> is_nan x" for x
    using that nn scan_key_elem [of neg_infinity x row]
    by (simp add: float_le_def scan_max_def neg_infinity_facts)
  have mem: "?v \<in> set row"
  proof (rule ccontr)
    assume out: "?v \<notin> set row"
    then have v: "?v = neg_infinity" using scan_mem [of neg_infinity row] by (auto simp: scan_max_def)
    obtain x where x: "x \<in> set row" "\<not> is_nan x" using assms by blast
    then have "float_key x \<le> - 0x7F800000"
      using ge [OF x] v by (simp add: float_le_def neg_infinity_facts)
    then have "x = neg_infinity" using x(2) by (intro float_key_lowest)
    then show False using x(1) out v by simp
  qed
  show ?thesis unfolding is_max_skipping_nan_def using mem nn ge by blast
qed

lemma nan_free_max:
  "\<forall>x\<in>set row. \<not> is_nan x \<Longrightarrow> is_max_skipping_nan row v = is_row_max row v"
  by (auto simp: is_max_skipping_nan_def is_row_max_def float_le_def)


section \<open>Facts about the row loops\<close>

lemma diag_index:
  assumes "unat (i :: u32) < 2 ^ 31"
  shows "unat ((scast i :: size_t) * ucast (sz :: u32) + scast i) = unat i * unat sz + unat i"
proof -
  have "(scast i :: size_t) = ucast i"
  proof -
    have "(scast i :: size_t) = word_of_int (sint i)" by (rule scast_eq)
    also have "\<dots> = word_of_int (uint i)" by (simp only: sint_small [OF assms])
    also have "\<dots> = ucast i" by (rule ucast_eq [symmetric])
    finally show ?thesis .
  qed
  then have "(scast i :: size_t) * ucast sz + scast i = scast i * ucast sz + ucast i" by simp
  then show ?thesis by (simp only: row_index [OF assms])
qed

lemma row_max_loop_spec:
  assumes i: "unat (iw :: u32) < 2 ^ 31" and fit: "unat iw * unat sz + unat sz \<le> length m"
  shows "unat j \<le> unat sz \<Longrightarrow>
         row_max_loop m (scast iw * ucast sz) sz j acc =
           Some (foldl scan_step acc
                   (take (unat sz - unat j) (drop (unat iw * unat sz + unat j) m)))"
proof (induction "unat sz - unat j" arbitrary: j acc)
  case 0
  then have "\<not> j < sz" by (simp add: word_less_nat_alt)
  then show ?case using 0 by (subst row_max_loop.simps) simp
next
  case (Suc d)
  let ?b = "unat iw * unat sz"
  have lt: "j < sz" using Suc.hyps(2) by (simp add: word_less_nat_alt)
  have j1: "unat (j + 1) = Suc (unat j)" by (rule u32_succ [OF lt])
  have idx: "unat ((scast iw :: size_t) * ucast sz + ucast j) = ?b + unat j"
    by (rule row_index [OF i])
  have inb: "?b + unat j < length m" using fit lt by (simp add: word_less_nat_alt)
  have a: "at m ((scast iw :: size_t) * ucast sz + ucast j) = Some (m ! (?b + unat j))"
    using inb by (simp add: at_def idx)
  have d: "d = unat sz - unat (j + 1)" using Suc.hyps(2) j1 by simp
  have le: "unat (j + 1) \<le> unat sz" using lt j1 by (simp add: word_less_nat_alt)
  have ih: "row_max_loop m (scast iw * ucast sz) sz (j + 1) (scan_step acc (m ! (?b + unat j))) =
              Some (foldl scan_step (scan_step acc (m ! (?b + unat j)))
                      (take (unat sz - Suc (unat j)) (drop (Suc (?b + unat j)) m)))"
    using Suc.hyps(1) [OF d le, of "scan_step acc (m ! (?b + unat j))"] j1 by simp
  have n: "unat sz - unat j = Suc (unat sz - Suc (unat j))"
    using lt by (simp add: word_less_nat_alt)
  have l: "take (unat sz - unat j) (drop (?b + unat j) m) =
           m ! (?b + unat j) # take (unat sz - Suc (unat j)) (drop (Suc (?b + unat j)) m)"
    by (simp only: n Cons_nth_drop_Suc [OF inb, symmetric] take_Suc_Cons)
  show ?case
    using lt a ih by (subst row_max_loop.simps) (simp add: l scan_step_def)
qed

lemma length_set_diag [simp]: "length (set_diag m N i) = length m"
  by (simp add: set_diag_def)

lemma rows_done_step: "a < b \<Longrightarrow> rows_done m N a b = rows_done (set_diag m N a) N (Suc a) b"
  by (simp add: rows_done_def upt_conv_Cons)

lemma rows_done_empty [simp]: "rows_done m N a a = m"
  by (simp add: rows_done_def)

lemma length_rows_done [simp]: "length (rows_done m N a b) = length m"
proof -
  have "length (foldl (\<lambda>m' i. set_diag m' N i) m xs) = length m" for xs
    by (induction xs arbitrary: m) simp_all
  then show ?thesis by (simp add: rows_done_def)
qed

lemma process_matrix_rows_spec:
  assumes sz: "unat sz = N" and N: "N < 2 ^ 31"
  shows "unat iw = a \<Longrightarrow> unat endRow = b \<Longrightarrow> a \<le> b \<Longrightarrow> b \<le> N \<Longrightarrow>
         length m = N * N \<Longrightarrow>
         process_matrix_rows m sz iw endRow = Some (rows_done m N a b)"
proof (induction "b - a" arbitrary: a iw m)
  case 0
  then have ab: "a = b" by simp
  have "unat iw < 2 ^ 31" "unat endRow < 2 ^ 31" using 0 N by simp_all
  then have "(iw <s endRow) = (unat iw < unat endRow)" by (rule sless_small)
  then have "\<not> iw <s endRow" using 0 ab by simp
  then show ?case using ab by (subst process_matrix_rows.simps) simp
next
  case (Suc d)
  have ab: "a < b" using Suc.hyps(2) by simp
  have aN: "a < N" using ab Suc.prems by simp
  have i31: "unat iw < 2 ^ 31" using Suc.prems N by simp
  have e31: "unat endRow < 2 ^ 31" using Suc.prems N by simp
  have "(iw <s endRow) = (unat iw < unat endRow)" using i31 e31 by (rule sless_small)
  then have sl: "iw <s endRow" using Suc.prems ab by simp
  have lt: "iw < sz" using aN Suc.prems(1) sz by (simp add: word_less_nat_alt)
  have i1: "unat (iw + 1) = Suc a" using u32_succ [OF lt] Suc.prems(1) by simp
  have "a * N + N = Suc a * N" by simp
  also have "\<dots> \<le> N * N" using aN by (intro mult_le_mono1) simp
  finally have fit: "unat iw * unat sz + unat sz \<le> length m" using Suc.prems sz by simp
  have z: "unat (0 :: u32) \<le> unat sz" by simp
  have rm: "row_max_loop m (scast iw * ucast sz) sz 0 neg_infinity =
              Some (scan_max (matrix_row m N a))"
    using row_max_loop_spec [OF i31 fit z, of neg_infinity] Suc.prems(1) sz
    by (simp add: scan_max_def matrix_row_def)
  have di: "unat ((scast iw :: size_t) * ucast sz + scast iw) = a * N + a"
    using diag_index [OF i31, of sz] Suc.prems(1) sz by simp
  have "a * N + a < a * N + N" using aN by simp
  then have inb: "a * N + a < length m" using fit Suc.prems sz by simp
  have pt: "put m ((scast iw :: size_t) * ucast sz + scast iw) (scan_max (matrix_row m N a)) =
              Some (set_diag m N a)"
    using inb by (simp add: put_def di set_diag_def)
  have d: "d = b - Suc a" using Suc.hyps(2) by simp
  have ih: "process_matrix_rows (set_diag m N a) sz (iw + 1) endRow =
              Some (rows_done (set_diag m N a) N (Suc a) b)"
    using Suc.hyps(1) [OF d i1 Suc.prems(2)] ab Suc.prems by simp
  show ?case
    using sl lt rm pt ih
    by (subst process_matrix_rows.simps) (simp add: Let_def rows_done_step [OF ab])
qed


lemma rows_done_append:
  "a \<le> b \<Longrightarrow> b \<le> c \<Longrightarrow> rows_done (rows_done m N a b) N b c = rows_done m N a c"
proof -
  assume "a \<le> b" "b \<le> c"
  then have "[a..<c] = [a..<b] @ [b..<c]" by (metis le_Suc_ex upt_add_eq_append)
  then show ?thesis by (simp add: rows_done_def)
qed

lemma run_tasks_spec:
  assumes sz: "unat sz = N" and N: "N < 2 ^ 31"
    and mono: "\<And>k k'. k \<le> k' \<Longrightarrow> S k \<le> S k'" and top: "S M \<le> N"
  shows "map unat_pair cs = map (\<lambda>k. (S k, S (Suc k))) [a..<M] \<Longrightarrow> a \<le> M \<Longrightarrow>
         length m = N * N \<Longrightarrow>
         run_tasks m sz cs = Some (rows_done m N (S a) (S M))"
proof (induction cs arbitrary: a m)
  case Nil
  then have "a = M" by auto
  then show ?case by simp
next
  case (Cons c cs)
  have lt: "a < M" using Cons.prems(1,2) by (cases "a = M") simp_all
  then have up: "[a..<M] = a # [Suc a..<M]" by (simp add: upt_conv_Cons)
  obtain x y where c: "c = (x, y)" by (cases c)
  have "unat_pair c # map unat_pair cs =
          (S a, S (Suc a)) # map (\<lambda>k. (S k, S (Suc k))) [Suc a..<M]"
    using Cons.prems(1) by (simp only: up list.map)
  then have hd: "unat_pair c = (S a, S (Suc a))"
    and rest: "map unat_pair cs = map (\<lambda>k. (S k, S (Suc k))) [Suc a..<M]"
    by simp_all
  have xy: "unat x = S a" "unat y = S (Suc a)"
    using hd c by (simp_all add: unat_pair_def)
  have o1: "S a \<le> S (Suc a)" by (rule mono) simp
  have "S (Suc a) \<le> S M" using lt by (intro mono) simp
  then have o2: "S (Suc a) \<le> N" using top by simp
  have p: "process_matrix_rows m sz x y = Some (rows_done m N (S a) (S (Suc a)))"
    using process_matrix_rows_spec [OF sz N xy o1 o2 Cons.prems(3)] .
  have ih: "run_tasks (rows_done m N (S a) (S (Suc a))) sz cs =
              Some (rows_done (rows_done m N (S a) (S (Suc a))) N (S (Suc a)) (S M))"
    using Cons.IH [OF rest, of "rows_done m N (S a) (S (Suc a))"] lt Cons.prems(3) by simp
  have "S (Suc a) \<le> S M" using lt by (intro mono) simp
  then show ?case using p ih o1 by (simp add: c rows_done_append)
qed

lemma chunks_zero_threads: "chunks sz 0 = chunks sz 1"
  by (simp add: chunks_def)

lemma run_tasks_chunks:
  assumes sz: "unat sz = N" and N: "N < 2 ^ 31" and len: "length m = N * N"
  shows "run_tasks m sz (chunks sz t) = Some (rows_done m N 0 N)"
proof -
  have main: "run_tasks m sz (chunks sz t') = Some (rows_done m N 0 N)" if t': "1 \<le> unat t'" for t'
  proof -
    let ?T = "unat t'"
    have cs: "map unat_pair (chunks sz t') =
              map (\<lambda>k. (chunk_start N ?T k, chunk_start N ?T (Suc k))) [0..<min ?T N]"
      using chunks_spec_eq [of sz t'] sz N t' by (simp add: chunks_spec_def)
    have top: "chunk_start N ?T (min ?T N) = N" using chunk_start_past [OF t', of N "min ?T N"] by simp
    have "run_tasks m sz (chunks sz t') =
            Some (rows_done m N (chunk_start N ?T 0) (chunk_start N ?T (min ?T N)))"
      using run_tasks_spec [OF sz N _ _ cs _ len, of ] chunk_start_mono [of _ _ N ?T] top by simp
    then show ?thesis using top by simp
  qed
  show ?thesis
  proof (cases "t = 0")
    case True
    then show ?thesis using main [of 1] by (simp add: chunks_zero_threads)
  next
    case False
    then have "1 \<le> unat t" by (simp add: unat_gt_0 Suc_le_eq)
    then show ?thesis by (rule main)
  qed
qed

lemma idx_inj:
  "j < N \<Longrightarrow> j' < N \<Longrightarrow> (i * N + j = i' * N + j') = (i = i' \<and> j = (j' :: nat))"
proof
  assume j: "j < N" "j' < N" and e: "i * N + j = i' * N + j'"
  have "(i * N + j) div N = i" "(i * N + j) mod N = j" using j by simp_all
  moreover have "(i' * N + j') div N = i'" "(i' * N + j') mod N = j'" using j by simp_all
  ultimately show "i = i' \<and> j = j'" using e by metis
qed simp

lemma idx_bound: "i < N \<Longrightarrow> j < N \<Longrightarrow> i * N + j < N * (N :: nat)"
proof -
  assume "i < N" "j < N"
  then have "i * N + j < i * N + N" by simp
  also have "\<dots> = Suc i * N" by simp
  also have "\<dots> \<le> N * N" using \<open>i < N\<close> by (intro mult_le_mono1) simp
  finally show ?thesis .
qed

lemma rows_done_nth:
  assumes len: "length m = N * N"
  shows "b \<le> N \<Longrightarrow> i < N \<Longrightarrow> j < N \<Longrightarrow>
         rows_done m N 0 b ! (i * N + j) =
           (if i < b \<and> j = i then scan_max (matrix_row m N i) else m ! (i * N + j))"
proof (induction b arbitrary: i j)
  case 0
  then show ?case by simp
next
  case (Suc b)
  let ?m' = "rows_done m N 0 b"
  have bN: "b < N" "b \<le> N" using Suc.prems(1) by simp_all
  have st: "rows_done m N 0 (Suc b) = set_diag ?m' N b" by (simp add: rows_done_def)
  have l': "length ?m' = N * N" by (simp add: len)
  have "b * N + N = Suc b * N" by simp
  also have "\<dots> \<le> N * N" using bN by (intro mult_le_mono1) simp
  finally have fit: "b * N + N \<le> N * N" .
  have row: "matrix_row ?m' N b = matrix_row m N b"
  proof (rule nth_equalityI)
    show "length (matrix_row ?m' N b) = length (matrix_row m N b)"
      using fit by (simp add: matrix_row_def len)
  next
    fix k assume "k < length (matrix_row ?m' N b)"
    then have k: "k < N" by (simp add: matrix_row_def)
    have e: "?m' ! (b * N + k) = m ! (b * N + k)" using Suc.IH [OF bN(2) bN(1) k] by simp
    have "b * N \<le> N * N" using fit by linarith
    then have le: "b * N \<le> length ?m'" "b * N \<le> length m" by (simp_all only: l' len)
    have "drop (b * N) ?m' ! k = ?m' ! (b * N + k)" "drop (b * N) m ! k = m ! (b * N + k)"
      using le by (simp_all only: nth_drop)
    then show "matrix_row ?m' N b ! k = matrix_row m N b ! k"
      using k e by (simp add: matrix_row_def)
  qed
  have inb: "i * N + j < length ?m'" using idx_bound [OF Suc.prems(2,3)] by (simp add: len)
  have upd: "set_diag ?m' N b ! (i * N + j) =
               (if i = b \<and> j = b then scan_max (matrix_row m N b) else ?m' ! (i * N + j))"
    using inb idx_inj [OF bN(1) Suc.prems(3), of b i]
    by (auto simp: set_diag_def row nth_list_update)
  show ?case
    using upd Suc.IH [OF bN(2) Suc.prems(2,3)] by (auto simp: st less_Suc_eq)
qed

lemma scan_max_ok: "diag_value_ok row (scan_max row)"
  using scan_max_all_nan [of row] scan_max_skipping_nan [of row]
  by (auto simp: diag_value_ok_def)

lemma rows_done_post:
  assumes "length m = N * N"
  shows "worker_post N m (rows_done m N 0 N)"
  unfolding worker_post_def
  using rows_done_nth [OF assms, of N] scan_max_ok by simp


lemma initial_copy_eq [simp]: "initial_copy st = matrixData st"
  by (simp add: initial_copy_def)

lemma perform_computation_completes:
  assumes "unat (matrixSize st) < 2 ^ 31"
    and "length (matrixData st) = unat (matrixSize st) * unat (matrixSize st)"
  shows "perform_computation Completes st =
           Some (st\<lparr>resultData :=
                      rows_done (matrixData st) (unat (matrixSize st)) 0 (unat (matrixSize st)),
                    processingDone := True, errorOccurred := False,
                    processingStarted := False\<rparr>)"
  using run_tasks_chunks [OF refl assms(1) assms(2), of "numThreads st"]
  by (simp add: perform_computation_def)

lemma length_matrix_row:
  "length m = N * N \<Longrightarrow> i < N \<Longrightarrow> length (matrix_row m N i) = N"
proof -
  assume l: "length m = N * N" and i: "i < N"
  have "i * N + N = Suc i * N" by simp
  also have "\<dots> \<le> N * N" using i by (intro mult_le_mono1) simp
  finally have "i * N + N \<le> length m" using l by simp
  then show ?thesis by (simp add: matrix_row_def)
qed

lemma set_matrix_row: "set (matrix_row m N i) \<subseteq> set m"
  unfolding matrix_row_def by (meson set_take_subset set_drop_subset subset_trans)

lemma nan_free_post:
  assumes l: "length m = N * N" and nf: "\<forall>x\<in>set m. \<not> is_nan x" and p: "worker_post N m r"
  shows "claimed_post N m r"
proof -
  have "is_row_max (matrix_row m N i) v" if i: "i < N" and d: "diag_value_ok (matrix_row m N i) v"
    for i v
  proof -
    let ?row = "matrix_row m N i"
    have "length ?row = N" using l i by (rule length_matrix_row)
    then have "?row \<noteq> []" using i by auto
    then obtain x where x: "x \<in> set ?row" by (cases ?row) auto
    have free: "\<forall>x\<in>set ?row. \<not> is_nan x" using nf set_matrix_row [of m N i] by blast
    then have "\<not> (\<forall>x\<in>set ?row. is_nan x)" using x by blast
    then have "is_max_skipping_nan ?row v" using d by (simp add: diag_value_ok_def)
    then show ?thesis using nan_free_max [OF free] by simp
  qed
  then show ?thesis using p unfolding claimed_post_def worker_post_def by (metis (full_types))
qed

lemma scenario2_run:
  "map_option resultData (perform_computation Completes scenario2_state) =
     Some [0x40400000, 0x40000000, 0x40400000,
           0x40800000, 0x40C00000, 0x40C00000,
           0x40E00000, 0x41000000, 0x41100000]"
  by code_simp

text \<open>
  The order in which the rows are transformed does not matter: each transformation reads
  one row and writes one cell of that row.
\<close>

lemma rows_in_order_snoc: "rows_in_order m N (rows @ [b]) = set_diag (rows_in_order m N rows) N b"
  by (simp add: rows_in_order_def)

lemma length_rows_in_order [simp]: "length (rows_in_order m N rows) = length m"
  by (induction rows rule: rev_induct) (simp_all add: rows_in_order_snoc, simp add: rows_in_order_def)

lemma rows_any_order_nth:
  assumes len: "length m = N * N"
  shows "distinct rows \<Longrightarrow> \<forall>r\<in>set rows. r < N \<Longrightarrow> i < N \<Longrightarrow> j < N \<Longrightarrow>
         rows_in_order m N rows ! (i * N + j) =
           (if i \<in> set rows \<and> j = i then scan_max (matrix_row m N i) else m ! (i * N + j))"
proof (induction rows arbitrary: i j rule: rev_induct)
  case Nil
  then show ?case by (simp add: rows_in_order_def)
next
  case (snoc b rows)
  let ?m' = "rows_in_order m N rows"
  have d: "distinct rows" and nb: "b \<notin> set rows" using snoc.prems(1) by simp_all
  have rs: "\<forall>r\<in>set rows. r < N" and bN: "b < N" using snoc.prems(2) by simp_all
  have l': "length ?m' = N * N" by (simp add: len)
  have "b * N + N = Suc b * N" by simp
  also have "\<dots> \<le> N * N" using bN by (intro mult_le_mono1) simp
  finally have fit: "b * N + N \<le> N * N" .
  have row: "matrix_row ?m' N b = matrix_row m N b"
  proof (rule nth_equalityI)
    show "length (matrix_row ?m' N b) = length (matrix_row m N b)"
      using fit by (simp add: matrix_row_def len)
  next
    fix k assume "k < length (matrix_row ?m' N b)"
    then have k: "k < N" by (simp add: matrix_row_def)
    have e: "?m' ! (b * N + k) = m ! (b * N + k)"
      using snoc.IH [OF d rs bN k] nb by simp
    have "b * N \<le> N * N" using fit by linarith
    then have le: "b * N \<le> length ?m'" "b * N \<le> length m" by (simp_all only: l' len)
    have "drop (b * N) ?m' ! k = ?m' ! (b * N + k)" "drop (b * N) m ! k = m ! (b * N + k)"
      using le by (simp_all only: nth_drop)
    then show "matrix_row ?m' N b ! k = matrix_row m N b ! k"
      using k e by (simp add: matrix_row_def)
  qed
  have inb: "i * N + j < length ?m'" using idx_bound [OF snoc.prems(3,4)] by (simp add: len)
  have upd: "set_diag ?m' N b ! (i * N + j) =
               (if i = b \<and> j = b then scan_max (matrix_row m N b) else ?m' ! (i * N + j))"
    using inb idx_inj [OF bN snoc.prems(4), of b i]
    by (auto simp: set_diag_def row nth_list_update)
  show ?case
    using upd snoc.IH [OF d rs snoc.prems(3,4)] nb by (auto simp: rows_in_order_snoc)
qed

lemma rows_any_order:
  assumes len: "length m = N * N" and d: "distinct rows" and all: "set rows = {..<N}"
  shows "rows_in_order m N rows = rows_done m N 0 N"
proof (rule nth_equalityI)
  show "length (rows_in_order m N rows) = length (rows_done m N 0 N)" by simp
next
  fix idx assume "idx < length (rows_in_order m N rows)"
  then have b: "idx < N * N" using len by simp
  then have Npos: "0 < N" by (cases N) simp_all
  let ?i = "idx div N" and ?j = "idx mod N"
  have i: "?i < N" using b by (simp add: less_mult_imp_div_less)
  have j: "?j < N" using Npos by simp
  have e: "idx = ?i * N + ?j" by simp
  have rs: "\<forall>r\<in>set rows. r < N" using all by simp
  have "rows_in_order m N rows ! (?i * N + ?j) = rows_done m N 0 N ! (?i * N + ?j)"
    using rows_any_order_nth [OF len d rs i j] rows_done_nth [OF len _ i j, of N] all i by simp
  then show "rows_in_order m N rows ! idx = rows_done m N 0 N ! idx"
    using e by simp
qed

section \<open>Facts about the session handler\<close>

lemma record_event_simps [simp]:
  "socket (record_event e st) = socket st"
  "matrixSize (record_event e st) = matrixSize st"
  "numThreads (record_event e st) = numThreads st"
  "matrixData (record_event e st) = matrixData st"
  "resultData (record_event e st) = resultData st"
  "dataReceived (record_event e st) = dataReceived st"
  "processingStarted (record_event e st) = processingStarted st"
  "processingDone (record_event e st) = processingDone st"
  "errorOccurred (record_event e st) = errorOccurred st"
  "workerThread (record_event e st) = workerThread st"
  "trace (record_event e st) = trace st @ [e]"
  by (simp_all add: record_event_def)

lemma handle_status_ok:
  assumes "8 + 4 * length (resultData st) \<le> tx_budget (socket st)"
  shows "handle_status st =
           (st\<lparr>socket := (socket st)\<lparr>tx := tx (socket st) @ status_frame st,
                    tx_budget := tx_budget (socket st) - length (status_frame st)\<rparr>,
               trace := trace st @
                 (if snd (status_response st)
                  then [EvSendU32 RESP_RESULT, EvSendU32 (matrixSize st),
                        EvSendFloats (length (resultData st))]
                  else [EvSendU32 (fst (status_response st))])\<rparr>, True)"
  using assms
  by (simp add: handle_status_def status_response_def status_frame_def reply_ok send_floats_ok
      record_event_def be_bytes_def)

lemma handle_status_session:
  "fst (handle_status st) =
     st\<lparr>socket := socket (fst (handle_status st)), trace := trace (fst (handle_status st))\<rparr>"
  by (auto simp: handle_status_def reply_def record_event_def split: prod.splits)

lemma status_frame_session:
  "status_frame (st\<lparr>socket := s, trace := t\<rparr>) = status_frame st"
  by (simp add: status_frame_def)

lemma polls_ok:
  "k * (8 + 4 * length (resultData st)) \<le> tx_budget (socket st) \<Longrightarrow>
   polls k st =
     st\<lparr>socket := socket (polls k st), trace := trace (polls k st)\<rparr> \<and>
   tx (socket (polls k st)) = tx (socket st) @ concat (replicate k (status_frame st)) \<and>
   tx_budget (socket (polls k st)) = tx_budget (socket st) - k * length (status_frame st)"
proof (induction k arbitrary: st)
  case 0
  then show ?case by simp
next
  case (Suc k)
  let ?st1 = "fst (handle_status st)"
  have b1: "8 + 4 * length (resultData st) \<le> tx_budget (socket st)"
    using Suc.prems by simp
  have fl: "length (status_frame st) \<le> 8 + 4 * length (resultData st)"
    by (simp add: status_frame_def be_bytes_def)
  have h: "?st1 = st\<lparr>socket := (socket st)\<lparr>tx := tx (socket st) @ status_frame st,
                    tx_budget := tx_budget (socket st) - length (status_frame st)\<rparr>,
               trace := trace ?st1\<rparr>"
    by (simp add: handle_status_ok [OF b1])
  have r: "resultData ?st1 = resultData st" by (subst h) simp
  have f: "status_frame ?st1 = status_frame st" by (subst h) (simp add: status_frame_def)
  have b: "tx_budget (socket ?st1) = tx_budget (socket st) - length (status_frame st)"
    by (subst h) simp
  have t: "tx (socket ?st1) = tx (socket st) @ status_frame st"
    by (subst h) simp
  have "k * (8 + 4 * length (resultData ?st1)) \<le> tx_budget (socket ?st1)"
    using Suc.prems fl by (simp add: r b)
  from Suc.IH [OF this]
  have ih1: "polls k ?st1 = ?st1\<lparr>socket := socket (polls k ?st1), trace := trace (polls k ?st1)\<rparr>"
    and ih2: "tx (socket (polls k ?st1)) = tx (socket ?st1) @ concat (replicate k (status_frame ?st1))"
    and ih3: "tx_budget (socket (polls k ?st1)) = tx_budget (socket ?st1) - k * length (status_frame ?st1)"
    by simp_all
  have "polls k ?st1 = st\<lparr>socket := socket (polls k ?st1), trace := trace (polls k ?st1)\<rparr>"
    by (subst ih1, subst h) simp
  then show ?case
    using ih2 ih3 by (simp add: f t b)
qed


lemma join_worker_not_running:
  "workerThread st \<noteq> Running \<Longrightarrow>
   join_worker env st =
     Some (st\<lparr>workerThread := NotJoinable,
              trace := trace st @ (if workerThread st = Finished then [EvJoin] else [])\<rparr>)"
  by (cases "workerThread st") (simp_all add: join_worker_def worker_finishes_def record_event_def)

lemma handle_start_restart:
  assumes "dataReceived st" "\<not> processingStarted st" "workerThread st \<noteq> Running"
    and "4 \<le> tx_budget (socket st)"
  shows "handle_start env st =
           Some (st\<lparr>socket := (socket st)\<lparr>tx := tx (socket st) @ be_bytes RESP_ACK,
                                          tx_budget := tx_budget (socket st) - 4\<rparr>,
                    processingStarted := True, processingDone := False, errorOccurred := False,
                    workerThread := Running,
                    trace := trace st @ (if workerThread st = Finished then [EvJoin] else [])
                               @ [EvSpawn, EvSendU32 RESP_ACK]\<rparr>, True)"
  using assms
  by (simp add: handle_start_def join_worker_not_running reply_ok record_event_def Let_def)

section \<open>Facts about the configuration command\<close>

lemma length_be_bytes [simp]: "length (be_bytes v) = 4"
  by (simp add: be_bytes_def)

lemma recv_uint32_be:
  "rx s = be_bytes v @ rest \<Longrightarrow> recv_uint32 s old = (True, v, s\<lparr>rx := rest\<rparr>)"
  using recv_uint32_ok [of s old] by (simp add: be_word_be_bytes)

lemma length_floats_of_bytes: "length (floats_of_bytes bs) = length bs div 4"
  by (induction bs rule: floats_of_bytes.induct) simp_all

lemma recv_floats_fst:
  "0 < count \<Longrightarrow>
   fst (recv_floats s fs count) = fst (recv_floats_loop s (bytes_of_floats (resize fs count)) 0)"
  by (auto simp: recv_floats_def split: prod.splits)

lemma recv_floats_short:
  assumes c: "0 < count" and l: "length (rx s) < 4 * count"
  shows "fst (recv_floats s fs count) = False"
proof -
  let ?buf = "bytes_of_floats (resize fs count)"
  have lb: "length ?buf = 4 * count" by simp
  have empty: "fst (recv_floats_loop s' buf k) = False"
    if "rx s' = []" "k < length buf" for s' buf k
    using that
    by (subst recv_floats_loop.simps)
       (auto simp: recv_some_def SOCKET_ERROR_def split: stream_end.splits)
  show ?thesis
  proof (cases "rx s = []")
    case True
    then have "fst (recv_floats_loop s ?buf 0) = False" using c by (intro empty) simp_all
    then show ?thesis using c by (simp add: recv_floats_fst)
  next
    case False
    let ?n = "length (rx s)"
    let ?s' = "s\<lparr>rx := []\<rparr>"
    let ?buf' = "rx s @ drop ?n ?buf"
    have r: "recv_some s (4 * count) = (int ?n, rx s, 0, ?s')"
      using False l by (simp add: recv_some_def min_def)
    have pos: "0 < ?n" using False by simp
    have l1: "recv_floats_loop s ?buf 0 = recv_floats_loop ?s' ?buf' ?n"
      using c pos l by (subst recv_floats_loop.simps) (simp add: r SOCKET_ERROR_def)
    have "fst (recv_floats_loop ?s' ?buf' ?n) = False" using l by (intro empty) simp_all
    then show ?thesis using c l1 by (simp add: recv_floats_fst)
  qed
qed

lemma perform_computation_total:
  assumes "unat (matrixSize st) < 2 ^ 31"
    and "length (matrixData st) = unat (matrixSize st) * unat (matrixSize st)"
  shows "\<exists>s. perform_computation env st = Some s
           \<and> rx (socket s) = rx (socket st) \<and> tx (socket s) = tx (socket st)
           \<and> tx_budget (socket s) = tx_budget (socket st)
           \<and> matrixSize s = matrixSize st \<and> numThreads s = numThreads st
           \<and> matrixData s = matrixData st \<and> dataReceived s = dataReceived st
           \<and> workerThread s = workerThread st \<and> trace s = trace st"
proof (cases env)
  case Completes
  then show ?thesis by (simp add: perform_computation_completes [OF assms])
next
  case ThrowsInCopy
  then show ?thesis by (simp add: perform_computation_def log_line_def)
next
  case ThrowsInSpawn
  then show ?thesis by (simp add: perform_computation_def log_line_def)
qed

lemma join_worker_total:
  assumes "unat (matrixSize st) < 2 ^ 31"
    and "length (matrixData st) = unat (matrixSize st) * unat (matrixSize st)"
  shows "\<exists>s. join_worker env st = Some s
           \<and> rx (socket s) = rx (socket st) \<and> tx (socket s) = tx (socket st)
           \<and> tx_budget (socket s) = tx_budget (socket st)
           \<and> matrixSize s = matrixSize st \<and> numThreads s = numThreads st
           \<and> matrixData s = matrixData st \<and> dataReceived s = dataReceived st
           \<and> workerThread s = NotJoinable
           \<and> trace s = trace st @ (if workerThread st = NotJoinable then [] else [EvJoin])"
proof (cases "workerThread st = Running")
  case False
  then show ?thesis by (cases "workerThread st") (simp_all add: join_worker_not_running)
next
  case True
  let ?st = "record_event EvJoin st"
  have a: "unat (matrixSize ?st) < 2 ^ 31"
    "length (matrixData ?st) = unat (matrixSize ?st) * unat (matrixSize ?st)"
    using assms by simp_all
  from perform_computation_total [OF a, of env] obtain s where
    "perform_computation env ?st = Some s" 
    "rx (socket s) = rx (socket st)" "tx (socket s) = tx (socket st)"
    "tx_budget (socket s) = tx_budget (socket st)"
    "matrixSize s = matrixSize st" "numThreads s = numThreads st"
    "matrixData s = matrixData st" "dataReceived s = dataReceived st"
    "trace s = trace st @ [EvJoin]"
    by auto
  then show ?thesis using True by (simp add: join_worker_def worker_finishes_def)
qed


lemma handle_command_dispatch:
  assumes "rx (socket st) = be_bytes c @ rest"
  shows "handle_command env st =
           (let st0 = record_event EvRecvU32 (st\<lparr>socket := (socket st)\<lparr>rx := rest\<rparr>\<rparr>) in
            if c = CMD_CONFIG_DATA then handle_config env st0
            else if c = CMD_START_COMP then handle_start env st0
            else if c = CMD_GET_STATUS then Some (handle_status st0)
            else Some (handle_unknown c st0))"
  by (simp add: handle_command_def recv_uint32_be [OF assms] Let_def)

lemma handle_command_closed:
  assumes "length (rx (socket st)) < 4"
  shows "\<exists>st'. handle_command env st = Some (st', False)"
  using recv_uint32_fail_cerr [OF assms, of 0]
  by (cases "recv_uint32 (socket st) 0") (auto simp: handle_command_def Let_def)

lemma handle_config_invalid:
  assumes rx: "rx (socket st) = be_bytes n @ be_bytes t @ rest"
    and b: "4 \<le> tx_budget (socket st)" and bad: "n = 0 \<or> 3000 < n"
  shows "handle_config env st =
           Some (st\<lparr>socket := (socket st)\<lparr>rx := rest,
                                          tx := tx (socket st) @ be_bytes RESP_ERROR,
                                          tx_budget := tx_budget (socket st) - 4,
                                          cerr := cerr (socket st) @ [InvalidMatrixSize n]\<rparr>,
                    matrixSize := n, numThreads := t,
                    trace := trace st @ [EvRecvU32, EvRecvU32, EvSendU32 RESP_ERROR]\<rparr>, False)"
proof -
  let ?s1 = "(socket st)\<lparr>rx := be_bytes t @ rest\<rparr>"
  let ?s2 = "(socket st)\<lparr>rx := rest\<rparr>"
  have r1: "recv_uint32 (socket st) (matrixSize st) = (True, n, ?s1)"
    using recv_uint32_be [OF rx] .
  have r2: "recv_uint32 ?s1 (numThreads st) = (True, t, ?s2)"
    using recv_uint32_be [of ?s1 t rest] by simp
  show ?thesis
    using bad b
    by (simp add: handle_config_def r1 r2 Let_def reply_ok log_line_def record_event_def)
qed

lemma handle_config_valid:
  assumes rx: "rx (socket st) = be_bytes n @ be_bytes t @ rest"
    and b: "4 \<le> tx_budget (socket st)" and ok: "n \<noteq> 0" "n \<le> 3000"
  shows "\<exists>st' keep. handle_config env st = Some (st', keep)
           \<and> matrixSize st' = n \<and> numThreads st' = t
           \<and> take 3 (drop (length (trace st)) (trace st')) =
               [EvRecvU32, EvRecvU32, EvRecvFloats (unat n * unat n)]
           \<and> keep = (4 * (unat n * unat n) \<le> length rest)
           \<and> (keep \<longrightarrow>
                matrixData st' = floats_of_bytes (take (4 * (unat n * unat n)) rest)
                \<and> rx (socket st') = drop (4 * (unat n * unat n)) rest
                \<and> tx (socket st') = tx (socket st) @ be_bytes RESP_ACK
                \<and> dataReceived st' \<and> workerThread st' = NotJoinable)"
proof -
  let ?N = "unat n"
  let ?s1 = "(socket st)\<lparr>rx := be_bytes t @ rest\<rparr>"
  let ?s2 = "(socket st)\<lparr>rx := rest\<rparr>"
  have r1: "recv_uint32 (socket st) (matrixSize st) = (True, n, ?s1)"
    using recv_uint32_be [OF rx] .
  have r2: "recv_uint32 ?s1 (numThreads st) = (True, t, ?s2)"
    using recv_uint32_be [of ?s1 t rest] by simp
  have le: "\<not> 3000 < n" using ok(2) by simp
  have Npos: "0 < ?N" using ok(1) by (simp add: unat_gt_0)
  then have cnt: "0 < ?N * ?N" by simp
  have N31: "?N < 2 ^ 31" using ok(2) by (simp add: word_le_nat_alt)
  show ?thesis
  proof (cases "4 * (?N * ?N) \<le> length rest")
    case True
    let ?d = "floats_of_bytes (take (4 * (?N * ?N)) rest)"
    let ?s3 = "(socket st)\<lparr>rx := drop (4 * (?N * ?N)) rest\<rparr>"
    have r3: "recv_floats ?s2 (matrixData st) (?N * ?N) = (True, ?d, ?s3)"
      using recv_floats_ok [OF cnt, of ?s2 "matrixData st"] True by simp
    let ?st4 = "st\<lparr>matrixSize := n, numThreads := t, socket := ?s3, matrixData := ?d,
                    trace := trace st @ [EvRecvU32, EvRecvU32, EvRecvFloats (?N * ?N)],
                    dataReceived := True, processingStarted := False,
                    processingDone := False, errorOccurred := False\<rparr>"
    have ld: "length ?d = ?N * ?N" using True by (simp add: length_floats_of_bytes)
    have a: "unat (matrixSize ?st4) < 2 ^ 31"
      "length (matrixData ?st4) = unat (matrixSize ?st4) * unat (matrixSize ?st4)"
      using N31 ld by simp_all
    from join_worker_total [OF a, of env] obtain s5 where
      j: "join_worker env ?st4 = Some s5"
      and f: "rx (socket s5) = drop (4 * (?N * ?N)) rest" "tx (socket s5) = tx (socket st)"
        "tx_budget (socket s5) = tx_budget (socket st)"
        "matrixSize s5 = n" "numThreads s5 = t" "matrixData s5 = ?d" "dataReceived s5"
        "workerThread s5 = NotJoinable"
      and tr: "trace s5 = trace st @ [EvRecvU32, EvRecvU32, EvRecvFloats (?N * ?N)]
                 @ (if workerThread st = NotJoinable then [] else [EvJoin])"
      by auto
    have b5: "4 \<le> tx_budget (socket s5)" using b f by simp
    have hc: "handle_config env st = Some (reply RESP_ACK s5)"
      using ok(1) le j
      by (simp add: handle_config_def r1 r2 r3 Let_def record_event_def)
    show ?thesis
      using True f tr by (auto simp: hc reply_ok [OF b5])
  next
    case False
    then have sh: "length (rx ?s2) < 4 * (?N * ?N)" by simp
    obtain d s3 where r3: "recv_floats ?s2 (matrixData st) (?N * ?N) = (False, d, s3)"
      using recv_floats_short [OF cnt sh, of "matrixData st"]
      by (cases "recv_floats ?s2 (matrixData st) (?N * ?N)") auto
    show ?thesis
      using False ok(1) le
      by (auto simp: handle_config_def r1 r2 r3 Let_def record_event_def)
  qed
qed


lemma unat_max_one: "unat (max 1 (t :: u32)) = max 1 (unat t)"
  by (simp add: max_def word_le_nat_alt)

lemma chunks_max: "chunks n t = chunks n (max 1 t)"
  by (simp add: chunks_def)

lemma perform_computation_zero_threads:
  "perform_computation env (st\<lparr>numThreads := 0\<rparr>) =
     map_option (\<lambda>s. s\<lparr>numThreads := 0\<rparr>) (perform_computation env (st\<lparr>numThreads := 1\<rparr>))"
  by (cases env) (simp_all add: perform_computation_def chunks_zero_threads split: option.splits)

section \<open>Theorems: worker\<close>

text \<open>
  C5: for every N in [1, 3000] and every T \<ge> 1 the worker spawns exactly \<open>min T N\<close>
  row-chunk tasks; with \<open>q = N div T\<close> and \<open>r = N mod T\<close> the first \<open>r\<close> chunks have
  \<open>q + 1\<close> rows and the others \<open>q\<close>, no spawned chunk is empty, the chunks are
  contiguous from row 0, pairwise disjoint, and together cover \<open>[0, N)\<close>.
\<close>

theorem chunks_partition_rows:
  assumes "1 \<le> unat sz" and "unat sz \<le> 3000" and "1 \<le> unat t"
  shows "row_partition (unat sz) (unat t) (map unat_pair (chunks sz t))"
proof -
  have "unat sz < 2 ^ 31" using assms(2) by simp
  then show ?thesis
    using chunks_spec_eq [of sz t] chunks_spec_partition [of "unat t" "unat sz"] assms(3) by simp
qed

theorem chunks_partition_rows_witness:
  "1 \<le> unat (4 :: u32) \<and> unat (4 :: u32) \<le> 3000 \<and> 1 \<le> unat (8 :: u32)
   \<and> map unat_pair (chunks 4 8) = [(0, 1), (1, 2), (2, 3), (3, 4)]
   \<and> row_partition 4 8 [(0, 1), (1, 2), (2, 3), (3, 4)]"
  using chunks_partition_rows [of 4 8] chunks_scenario3 by simp


text \<open>
  C1, as stated, fails on inputs with NaN: for the 1 x 1 input holding a NaN the worker
  completes with done set and writes minus infinity on the diagonal, which is not an
  element of the row, hence not its maximum.
\<close>

theorem worker_nan_row_counterexample:
  "map_option (\<lambda>st'. (processingDone st', resultData st'))
     (perform_computation Completes nan_state) = Some (True, [0xFF800000])
   \<and> matrix_row (matrixData nan_state) 1 0 = [0x7FC00000]
   \<and> \<not> is_row_max [0x7FC00000] 0xFF800000
   \<and> \<not> claimed_post 1 (matrixData nan_state) [0xFF800000]"
proof -
  have a: "map_option (\<lambda>st'. (processingDone st', resultData st'))
             (perform_computation Completes nan_state) = Some (True, [0xFF800000])"
    by code_simp
  have b: "matrix_row (matrixData nan_state) 1 0 = [0x7FC00000]"
    by (simp add: matrix_row_def nan_state_def)
  have c: "\<not> is_row_max [0x7FC00000] 0xFF800000" by (simp add: is_row_max_def)
  have "\<not> claimed_post 1 (matrixData nan_state) [0xFF800000]"
    using b c by (simp add: claimed_post_def)
  then show ?thesis using a b c by blast
qed

text \<open>
  C1, amended: for every input matrix of side N (1 \<le> N \<le> 3000) and every requested
  parallelism T, a worker that runs to completion sets done, leaves every cell off the
  diagonal equal to the input cell, and writes on the diagonal of row \<open>i\<close> the maximum of
  the elements of input row \<open>i\<close> that are not NaN (minus infinity when the row holds NaNs
  only). For an input without NaN this is the claim as stated.
\<close>

theorem worker_result:
  assumes "1 \<le> unat (matrixSize st)" and "unat (matrixSize st) \<le> 3000"
    and "length (matrixData st) = unat (matrixSize st) * unat (matrixSize st)"
  shows "\<exists>st'. perform_computation Completes st = Some st'
           \<and> processingDone st' \<and> \<not> errorOccurred st' \<and> \<not> processingStarted st'
           \<and> worker_post (unat (matrixSize st)) (matrixData st) (resultData st')
           \<and> ((\<forall>x\<in>set (matrixData st). \<not> is_nan x) \<longrightarrow>
                claimed_post (unat (matrixSize st)) (matrixData st) (resultData st'))"
proof -
  let ?N = "unat (matrixSize st)"
  let ?r = "rows_done (matrixData st) ?N 0 ?N"
  have N: "?N < 2 ^ 31" using assms(2) by simp
  have p: "worker_post ?N (matrixData st) ?r" using assms(3) by (rule rows_done_post)
  have c: "(\<forall>x\<in>set (matrixData st). \<not> is_nan x) \<longrightarrow> claimed_post ?N (matrixData st) ?r"
    using nan_free_post [OF assms(3) _ p] by blast
  show ?thesis
    using p c by (simp add: perform_computation_completes [OF N assms(3)])
qed

theorem worker_result_witness:
  "1 \<le> unat (matrixSize scenario2_state) \<and> unat (matrixSize scenario2_state) \<le> 3000
   \<and> length (matrixData scenario2_state)
       = unat (matrixSize scenario2_state) * unat (matrixSize scenario2_state)
   \<and> map_option resultData (perform_computation Completes scenario2_state) =
       Some [0x40400000, 0x40000000, 0x40400000,
             0x40800000, 0x40C00000, 0x40C00000,
             0x40E00000, 0x41000000, 0x41100000]
   \<and> worker_post 3 (matrixData scenario2_state)
        [0x40400000, 0x40000000, 0x40400000,
         0x40800000, 0x40C00000, 0x40C00000,
         0x40E00000, 0x41000000, 0x41100000]"
proof -
  have h: "1 \<le> unat (matrixSize scenario2_state)" "unat (matrixSize scenario2_state) \<le> 3000"
    "length (matrixData scenario2_state)
       = unat (matrixSize scenario2_state) * unat (matrixSize scenario2_state)"
    by (simp_all add: scenario2_state_def)
  from worker_result [OF h] obtain st' where
    st': "perform_computation Completes scenario2_state = Some st'"
    and post: "worker_post (unat (matrixSize scenario2_state)) (matrixData scenario2_state)
                 (resultData st')"
    by blast
  have r: "resultData st' = [0x40400000, 0x40000000, 0x40400000,
             0x40800000, 0x40C00000, 0x40C00000,
             0x40E00000, 0x41000000, 0x41100000]"
    using scenario2_run st' by simp
  have n: "unat (matrixSize scenario2_state) = 3" by (simp add: scenario2_state_def)
  show ?thesis using h scenario2_run post by (simp only: r n)
qed


section \<open>Theorems: session handler\<close>

text \<open>
  C2, as stated, fails: in state Done a \<open>CMD_START\<close> is not answered with
  \<open>RESP_ERROR\<close>. On the Done state of scenario 1 the handler joins the finished worker,
  spawns a new one and answers \<open>RESP_ACK\<close> (10), not \<open>RESP_ERROR\<close> (13).
\<close>

theorem start_in_done_counterexample:
  "map_option (\<lambda>(st', keep). (tx (socket st'), keep, workerThread st', processingStarted st',
                  processingDone st', trace st'))
     (handle_start Completes done_state)
   = Some ([0, 0, 0, 10], True, Running, True, False, [EvJoin, EvSpawn, EvSendU32 RESP_ACK])
   \<and> be_bytes RESP_ERROR = [0, 0, 0, 13]"
  by (simp add: handle_start_restart done_state_def initial_state_def example_socket_def
      be_bytes_def le_bytes_def RESP_ACK_def RESP_ERROR_def)

text \<open>
  C2, amended: in session state Done (configured, done, not running, not failed, the
  previous worker finished), a \<open>CMD_START\<close> is answered with \<open>RESP_ACK\<close> and starts a
  new computation on the same input: the handler joins the previous worker, sets
  running, clears done and failed, and spawns a worker.
\<close>

theorem start_in_done_restarts:
  assumes "dataReceived st" "processingDone st" "\<not> processingStarted st" "\<not> errorOccurred st"
    and "workerThread st \<noteq> Running" and "4 \<le> tx_budget (socket st)"
  shows "handle_start env st =
           Some (st\<lparr>socket := (socket st)\<lparr>tx := tx (socket st) @ be_bytes RESP_ACK,
                                          tx_budget := tx_budget (socket st) - 4\<rparr>,
                    processingStarted := True, processingDone := False, errorOccurred := False,
                    workerThread := Running,
                    trace := trace st @ (if workerThread st = Finished then [EvJoin] else [])
                               @ [EvSpawn, EvSendU32 RESP_ACK]\<rparr>, True)"
  using assms by (simp add: handle_start_restart)

theorem start_in_done_restarts_witness:
  "dataReceived done_state \<and> processingDone done_state \<and> \<not> processingStarted done_state
   \<and> \<not> errorOccurred done_state \<and> workerThread done_state \<noteq> Running
   \<and> 4 \<le> tx_budget (socket done_state)
   \<and> map_option (\<lambda>(st', keep). (tx (socket st'), keep, workerThread st', processingStarted st',
                  processingDone st'))
        (handle_start ThrowsInSpawn done_state) = Some ([0, 0, 0, 10], True, Running, True, False)"
  using start_in_done_restarts [of done_state ThrowsInSpawn]
  by (simp add: done_state_def initial_state_def example_socket_def
      be_bytes_def le_bytes_def RESP_ACK_def)

text \<open>
  C4: on a status command the handler inspects the flags in the order failed, done,
  running: it replies \<open>RESP_ERROR\<close> if failed, else \<open>RESP_RESULT\<close> followed by the size
  and the result buffer if done, else \<open>RESP_STATUS_PENDING\<close> if running, else
  \<open>RESP_ERROR\<close>. (The connection has to accept the frame.)
\<close>

theorem status_reply_priority:
  assumes "8 + 4 * length (resultData st) \<le> tx_budget (socket st)"
  shows "snd (handle_status st) \<and>
         tx (socket (fst (handle_status st))) = tx (socket st) @
           (if errorOccurred st then be_bytes RESP_ERROR
            else if processingDone st then
              be_bytes RESP_RESULT @ be_bytes (matrixSize st) @ bytes_of_floats (resultData st)
            else if processingStarted st then be_bytes RESP_STATUS_PENDING
            else be_bytes RESP_ERROR)"
  using assms by (simp add: handle_status_ok status_frame_def)

theorem status_reply_priority_witness:
  "8 + 4 * length (resultData done_state) \<le> tx_budget (socket done_state)
   \<and> snd (handle_status done_state)
   \<and> tx (socket (fst (handle_status done_state))) = [0, 0, 0, 12, 0, 0, 0, 1, 0, 0, 0xE0, 0x40]"
  using status_reply_priority [of done_state]
  by (simp add: done_state_def initial_state_def example_socket_def
      be_bytes_def le_bytes_def bytes_of_floats_def RESP_RESULT_def)

text \<open>
  C7: once a status command returns \<open>RESP_RESULT\<close>, every further status command
  returns the same frame (\<open>RESP_RESULT\<close>, the same size, the same payload bytes), and
  status commands change nothing of the session but the socket and the trace.
\<close>

theorem status_polls_idempotent:
  assumes "\<not> errorOccurred st" "processingDone st"
    and "k * (8 + 4 * length (resultData st)) \<le> tx_budget (socket st)"
  shows "tx (socket (polls k st)) = tx (socket st) @
           concat (replicate k
             (be_bytes RESP_RESULT @ be_bytes (matrixSize st) @ bytes_of_floats (resultData st)))
         \<and> polls k st = st\<lparr>socket := socket (polls k st), trace := trace (polls k st)\<rparr>"
  using polls_ok [OF assms(3)] assms(1,2) by (simp add: status_frame_def)

theorem status_polls_idempotent_witness:
  "\<not> errorOccurred done_state \<and> processingDone done_state
   \<and> 3 * (8 + 4 * length (resultData done_state)) \<le> tx_budget (socket done_state)
   \<and> tx (socket (polls 3 done_state)) =
       [0, 0, 0, 12, 0, 0, 0, 1, 0, 0, 0xE0, 0x40,
        0, 0, 0, 12, 0, 0, 0, 1, 0, 0, 0xE0, 0x40,
        0, 0, 0, 12, 0, 0, 0, 1, 0, 0, 0xE0, 0x40]"
  using status_polls_idempotent [of done_state 3]
  by (simp add: done_state_def initial_state_def example_socket_def numeral_3_eq_3
      be_bytes_def le_bytes_def bytes_of_floats_def RESP_RESULT_def)


section \<open>Theorems: configuration while a worker runs\<close>

text \<open>
  C3 against the code: a \<open>CONFIG_DATA\<close> that arrives while the worker of the previous
  \<open>CMD_START\<close> is still running. The handler reads N, T and the payload into the
  buffers the worker uses, resets the flags, and only then joins the worker: the receive
  of the payload precedes the join. The worker finishing after the reset leaves the
  session with done set, although no \<open>CMD_START\<close> followed the new configuration.
\<close>

theorem config_receives_payload_before_join:
  "map_option (\<lambda>(st', keep). (trace st', keep, processingDone st', resultData st'))
     (handle_config Completes running_state)
   = Some ([EvSpawn, EvSendU32 RESP_ACK, EvRecvU32, EvRecvU32, EvRecvFloats 1, EvJoin,
            EvSendU32 RESP_ACK], True, True, [0x41100000])"
  by code_simp

section \<open>Theorems: configuration command\<close>

text \<open>
  C6: a \<open>CONFIG_DATA\<close> carrying N = 0 or N > 3000 makes the server send \<open>RESP_ERROR\<close>
  and close the connection without reading any float payload (the bytes after N and T
  stay unread, the input buffer is untouched, no float receive is issued); for
  0 < N \<le> 3000 the server goes on to read the N * N floats of the payload, and keeps the
  connection exactly when they all arrive.
\<close>

theorem config_size_validation:
  assumes "rx (socket st) = be_bytes n @ be_bytes t @ rest" and "4 \<le> tx_budget (socket st)"
  shows "if n = 0 \<or> 3000 < n
         then \<exists>st'. handle_config env st = Some (st', False)
                \<and> tx (socket st') = tx (socket st) @ be_bytes RESP_ERROR
                \<and> rx (socket st') = rest \<and> matrixData st' = matrixData st
                \<and> trace st' = trace st @ [EvRecvU32, EvRecvU32, EvSendU32 RESP_ERROR]
         else \<exists>st' keep. handle_config env st = Some (st', keep)
                \<and> take 3 (drop (length (trace st)) (trace st')) =
                    [EvRecvU32, EvRecvU32, EvRecvFloats (unat n * unat n)]
                \<and> keep = (4 * (unat n * unat n) \<le> length rest)
                \<and> (keep \<longrightarrow>
                     matrixData st' = floats_of_bytes (take (4 * (unat n * unat n)) rest)
                     \<and> rx (socket st') = drop (4 * (unat n * unat n)) rest)"
proof (cases "n = 0 \<or> 3000 < n")
  case True
  then show ?thesis using handle_config_invalid [OF assms True, of env] by simp
next
  case False
  then have ok: "n \<noteq> 0" "n \<le> 3000" by (simp_all add: not_less)
  from handle_config_valid [OF assms ok, of env] show ?thesis using False by auto
qed

theorem config_size_validation_witness:
  "rx (socket config_zero_state) = be_bytes 0 @ be_bytes 1 @ [1, 2, 3, 4]
   \<and> 4 \<le> tx_budget (socket config_zero_state)
   \<and> map_option (\<lambda>(st', keep). (tx (socket st'), rx (socket st'), keep, trace st'))
        (handle_config Completes config_zero_state)
      = Some ([0, 0, 0, 13], [1, 2, 3, 4], False, [EvRecvU32, EvRecvU32, EvSendU32 RESP_ERROR])
   \<and> rx (socket config_one_state) = be_bytes 1 @ be_bytes 0 @ [0, 0, 0xE0, 0x40]
   \<and> 4 \<le> tx_budget (socket config_one_state)
   \<and> map_option (\<lambda>(st', keep). (matrixData st', rx (socket st'), keep))
        (handle_config Completes config_one_state)
      = Some ([0x40E00000], [], True)"
proof -
  have a: "rx (socket config_zero_state) = be_bytes 0 @ be_bytes 1 @ [1, 2, 3, 4]"
    "4 \<le> tx_budget (socket config_zero_state)"
    by (simp_all add: config_zero_state_def initial_state_def example_socket_def
        be_bytes_def le_bytes_def)
  have b: "rx (socket config_one_state) = be_bytes 1 @ be_bytes 0 @ [0, 0, 0xE0, 0x40]"
    "4 \<le> tx_budget (socket config_one_state)"
    by (simp_all add: config_one_state_def initial_state_def example_socket_def
        be_bytes_def le_bytes_def)
  have za: "map_option (\<lambda>(st', keep). (tx (socket st'), rx (socket st'), keep, trace st'))
        (handle_config Completes config_zero_state)
      = Some ([0, 0, 0, 13], [1, 2, 3, 4], False, [EvRecvU32, EvRecvU32, EvSendU32 RESP_ERROR])"
    using config_size_validation [OF a, of Completes]
    by (auto simp: config_zero_state_def initial_state_def example_socket_def
        be_bytes_def le_bytes_def RESP_ERROR_def)
  have ob: "map_option (\<lambda>(st', keep). (matrixData st', rx (socket st'), keep))
        (handle_config Completes config_one_state)
      = Some ([0x40E00000], [], True)"
    using config_size_validation [OF b, of Completes]
    by (auto simp: config_one_state_def initial_state_def example_socket_def)
  show ?thesis using a b za ob by blast
qed

text \<open>
  C10: the server never validates the requested worker count T. For a valid N, every
  32-bit T (0 and values above 128 included) is stored and acknowledged with
  \<open>RESP_ACK\<close>. The worker started on that configuration then uses \<open>max 1 T\<close> as the
  thread count: it cuts the rows into the partition for \<open>max 1 T\<close> threads, which has
  \<open>min (max 1 T) N\<close> tasks, runs these tasks on the input and completes with done set;
  so T = 0 behaves exactly like T = 1.
\<close>

theorem config_accepts_any_thread_count:
  assumes "rx (socket st) = be_bytes n @ be_bytes t @ rest" and "n \<noteq> 0" and "n \<le> 3000"
    and "4 * (unat n * unat n) \<le> length rest" and "4 \<le> tx_budget (socket st)"
  shows "(\<exists>st'. handle_config env st = Some (st', True)
            \<and> tx (socket st') = tx (socket st) @ be_bytes RESP_ACK
            \<and> numThreads st' = t \<and> dataReceived st'
            \<and> (\<exists>s. perform_computation Completes st' = Some s
                  \<and> processingDone s \<and> \<not> errorOccurred s
                  \<and> run_tasks (matrixData st') n (chunks n t) = Some (resultData s)
                  \<and> worker_post (unat n) (matrixData st') (resultData s)))
         \<and> length (chunks n t) = min (max 1 (unat t)) (unat n)
         \<and> row_partition (unat n) (max 1 (unat t)) (map unat_pair (chunks n t))
         \<and> chunks n t = chunks n (max 1 t)
         \<and> perform_computation env (st\<lparr>numThreads := 0\<rparr>) =
             map_option (\<lambda>s. s\<lparr>numThreads := 0\<rparr>)
               (perform_computation env (st\<lparr>numThreads := 1\<rparr>))"
proof -
  let ?N = "unat n"
  have N31: "?N < 2 ^ 31" using assms(3) by (simp add: word_le_nat_alt)
  from handle_config_valid [OF assms(1) assms(5) assms(2,3), of env] assms(4)
  obtain st' where h: "handle_config env st = Some (st', True)"
    and f: "tx (socket st') = tx (socket st) @ be_bytes RESP_ACK" "numThreads st' = t"
      "dataReceived st'" "matrixSize st' = n"
      "matrixData st' = floats_of_bytes (take (4 * (?N * ?N)) rest)"
    by auto
  have len: "length (matrixData st') = ?N * ?N"
    using assms(4) by (simp add: f(5) length_floats_of_bytes)
  have a: "unat (matrixSize st') < 2 ^ 31"
    "length (matrixData st') = unat (matrixSize st') * unat (matrixSize st')"
    using N31 len by (simp_all add: f(4))
  let ?r = "rows_done (matrixData st') ?N 0 ?N"
  have pc: "perform_computation Completes st' =
              Some (st'\<lparr>resultData := ?r, processingDone := True, errorOccurred := False,
                       processingStarted := False\<rparr>)"
    using perform_computation_completes [OF a] by (simp add: f(4))
  have rt: "run_tasks (matrixData st') n (chunks n t) = Some ?r"
    using run_tasks_chunks [OF refl N31 len] .
  have wp: "worker_post ?N (matrixData st') ?r" using len by (rule rows_done_post)
  have first: "\<exists>st'. handle_config env st = Some (st', True)
            \<and> tx (socket st') = tx (socket st) @ be_bytes RESP_ACK
            \<and> numThreads st' = t \<and> dataReceived st'
            \<and> (\<exists>s. perform_computation Completes st' = Some s
                  \<and> processingDone s \<and> \<not> errorOccurred s
                  \<and> run_tasks (matrixData st') n (chunks n t) = Some (resultData s)
                  \<and> worker_post (unat n) (matrixData st') (resultData s))"
  proof (rule exI [of _ st'], intro conjI)
    show "\<exists>s. perform_computation Completes st' = Some s
                  \<and> processingDone s \<and> \<not> errorOccurred s
                  \<and> run_tasks (matrixData st') n (chunks n t) = Some (resultData s)
                  \<and> worker_post (unat n) (matrixData st') (resultData s)"
      using rt wp by (simp add: pc)
  qed (use h f(1-3) in simp_all)
  have one: "1 \<le> unat (max 1 t)" using unat_max_one [of t] by simp
  have sp: "map unat_pair (chunks n (max 1 t)) = chunks_spec ?N (max 1 (unat t))"
    using chunks_spec_eq [OF N31 one] by (simp add: unat_max_one)
  have cm: "chunks n t = chunks n (max 1 t)" by (rule chunks_max)
  have part: "row_partition ?N (max 1 (unat t)) (map unat_pair (chunks n t))"
    using chunks_spec_partition [of "max 1 (unat t)" ?N] sp cm by simp
  have "length (map unat_pair (chunks n t)) = min (max 1 (unat t)) ?N"
    using part by (simp only: row_partition_def)
  then have cnt: "length (chunks n t) = min (max 1 (unat t)) ?N" by simp
  show ?thesis
    using first cnt part cm perform_computation_zero_threads [of env st] by blast
qed

theorem config_accepts_any_thread_count_witness:
  "rx (socket config_one_state) = be_bytes 1 @ be_bytes 0 @ [0, 0, 0xE0, 0x40]
   \<and> (1 :: u32) \<noteq> 0 \<and> (1 :: u32) \<le> 3000
   \<and> 4 * (unat (1 :: u32) * unat (1 :: u32)) \<le> length [0, 0, 0xE0, 0x40 :: byte]
   \<and> 4 \<le> tx_budget (socket config_one_state)
   \<and> map_option (\<lambda>(st', keep). (tx (socket st'), keep, numThreads st'))
        (handle_config ThrowsInSpawn config_one_state) = Some ([0, 0, 0, 10], True, 0)
   \<and> length (chunks 1 0) = 1
   \<and> chunks 1 0 = chunks 1 1"
proof -
  have b: "rx (socket config_one_state) = be_bytes 1 @ be_bytes 0 @ [0, 0, 0xE0, 0x40]"
    "(1 :: u32) \<noteq> 0" "(1 :: u32) \<le> 3000"
    "4 * (unat (1 :: u32) * unat (1 :: u32)) \<le> length [0, 0, 0xE0, 0x40 :: byte]"
    "4 \<le> tx_budget (socket config_one_state)"
    by (simp_all add: config_one_state_def initial_state_def example_socket_def
        be_bytes_def le_bytes_def)
  have "map_option (\<lambda>(st', keep). (tx (socket st'), keep, numThreads st'))
        (handle_config ThrowsInSpawn config_one_state) = Some ([0, 0, 0, 10], True, 0)
        \<and> length (chunks 1 0) = 1
        \<and> chunks 1 0 = chunks 1 1"
    using config_accepts_any_thread_count [OF b, of ThrowsInSpawn]
    by (auto simp: config_one_state_def initial_state_def example_socket_def
        be_bytes_def le_bytes_def RESP_ACK_def)
  then show ?thesis using b by blast
qed


section \<open>Theorems: wire codec\<close>

text \<open>
  C8, as stated, fails: the three failure causes of \<open>read_u32\<close> do not reach the caller
  as distinct error kinds. On a stream closed at byte 0, on a stream closed after two
  bytes and on a failed socket, \<open>recv_uint32\<close> hands its caller the same return value
  \<open>false\<close> and the same content of the variable.
\<close>

theorem recv_uint32_causes_counterexample:
  "(fst (recv_uint32 example_socket 0), fst (snd (recv_uint32 example_socket 0))) = (False, 0)
   \<and> (fst (recv_uint32 (example_socket\<lparr>rx := [0, 0]\<rparr>) 0),
      fst (snd (recv_uint32 (example_socket\<lparr>rx := [0, 0]\<rparr>) 0))) = (False, 0)
   \<and> (fst (recv_uint32 (example_socket\<lparr>rx_end := SocketFailure 10054\<rparr>) 0),
      fst (snd (recv_uint32 (example_socket\<lparr>rx_end := SocketFailure 10054\<rparr>) 0))) = (False, 0)
   \<and> PeerClosed \<noteq> TruncatedFrame \<and> TruncatedFrame \<noteq> TransportError
   \<and> PeerClosed \<noteq> TransportError"
  by (simp add: recv_uint32_def recv_waitall_def example_socket_def le_bytes_def
      SOCKET_ERROR_def WSAECONNRESET_def)

text \<open>
  C8, amended: \<open>recv_uint32\<close> succeeds exactly when four bytes arrive, and then returns
  their big-endian value and consumes exactly those four bytes. When the stream ends at
  byte 0, ends after one to three bytes, or the socket fails, the server's reader returns
  the same \<open>false\<close> and the client's reader throws the same \<open>std::runtime_error\<close>; the
  cause only selects the diagnostic text (the line on \<open>std::cerr\<close>, the exception
  message).
\<close>

theorem recv_uint32_outcomes:
  "fst (recv_uint32 s v) = (4 \<le> length (rx s))
   \<and> (if 4 \<le> length (rx s)
      then recv_uint32 s v = (True, be_word (take 4 (rx s)), s\<lparr>rx := drop 4 (rx s)\<rparr>)
      else cerr (snd (snd (recv_uint32 s v))) =
             cerr s @ read_failure_cause s #
               (if rx_end s = SocketFailure WSAECONNRESET then [ConnectionReset] else []))
   \<and> fst (recv_uint32_or_throw s) =
       (if 4 \<le> length (rx s) then Inr (be_word (take 4 (rx s)))
        else Inl (RuntimeError (read_failure_cause s)))"
  using recv_uint32_fail_cerr [of s v] recv_uint32_ok [of s v] recv_uint32_or_throw_eq [of s]
  by (cases "4 \<le> length (rx s)") simp_all

section \<open>Theorems: client command line\<close>

text \<open>
  C9, as stated, fails: an argument above the upper bound does not yield the bound.
  With \<open>matrix_size = 6000\<close> the client falls back to the default 5, not to 5000.
\<close>

theorem client_args_above_bound_counterexample:
  "fst (client_args [StoulReturns 6000]) \<noteq> clamp_spec 5000 6000
   \<and> fst (client_args [StoulReturns 6000]) = 5
   \<and> snd (client_args [StoulReturns 7, StoulReturns 200]) \<noteq> clamp_spec 128 200
   \<and> snd (client_args [StoulReturns 7, StoulReturns 200]) = 2"
  by (simp add: client_args_def parse_or_keep_def clamp_spec_def
      DEFAULT_MATRIX_SIZE_def DEFAULT_NUM_THREADS_def)

text \<open>
  C9, amended: the effective matrix size is the first positional argument when it parses
  to a value in [1, 5000], and the default 5 in every other case (absent, unparsable, zero
  or above 5000); the effective thread count is the second positional argument when it
  parses to a value in [1, 128], and the default 2 in every other case.
\<close>

theorem client_args_default_outside_range:
  "client_args args =
     ((case args of StoulReturns v # _ \<Rightarrow> if 1 \<le> v \<and> v \<le> 5000 then v else 5 | _ \<Rightarrow> 5),
      (case args of _ # StoulReturns t # _ \<Rightarrow> if 1 \<le> t \<and> t \<le> 128 then t else 2 | _ \<Rightarrow> 2))"
proof (cases args)
  case Nil
  then show ?thesis
    by (simp add: client_args_def DEFAULT_MATRIX_SIZE_def DEFAULT_NUM_THREADS_def)
next
  case (Cons a rest)
  have one: "(1 \<le> v) = (v \<noteq> 0)" for v :: u32
    by (simp add: word_le_nat_alt unat_eq_0 Suc_le_eq unat_gt_0)
  show ?thesis
  proof (cases rest)
    case Nil
    with Cons show ?thesis
      by (cases a)
         (auto simp: client_args_def parse_or_keep_def one
                     DEFAULT_MATRIX_SIZE_def DEFAULT_NUM_THREADS_def)
  next
    case (Cons b rest')
    with \<open>args = a # rest\<close> show ?thesis
      by (cases a; cases b)
         (auto simp: client_args_def parse_or_keep_def one
                     DEFAULT_MATRIX_SIZE_def DEFAULT_NUM_THREADS_def)
  qed
qed

end
